theory Spec2Isabelle
  imports Main "HOL-Library.Word"
begin

section \<open>Python values used by the Battle.net runner\<close>

text \<open>
  A \<open>bytes\<close> object is a list of 8-bit words. A \<open>str\<close> is a list of Unicode code
  points (natural numbers), since \<open>bytes.decode()\<close> produces code points and not bytes.
  Exceptions are values of \<open>py_error\<close>; a computation that may raise returns
  \<open>py_error + 'a\<close> with \<open>Inl\<close> for the exception.
\<close>

type_synonym byte = "8 word"
type_synonym bytes = "byte list"
type_synonym pystr = "nat list"

datatype py_error =
    IndexError
  | UnicodeDecodeError
  | KeyError
  | TypeError
  | IsADirectoryError
  | AttributeError
  | ValueError
  | OSError

definition str_of :: "string \<Rightarrow> pystr" where
  \<comment> \<open>an ASCII literal of the source as a Python \<open>str\<close>\<close>
  "str_of s = map of_char s"

definition ebind :: "'e + 'a \<Rightarrow> ('a \<Rightarrow> 'e + 'b) \<Rightarrow> 'e + 'b" where
  \<comment> \<open>sequencing of statements: the first exception raised leaves the function\<close>
  "ebind x f = (case x of Inl e \<Rightarrow> Inl e | Inr v \<Rightarrow> f v)"

subsection \<open>Indexing, slicing and decoding of \<open>bytes\<close>\<close>

definition getitem :: "bytes \<Rightarrow> nat \<Rightarrow> py_error + byte" where
  \<comment> \<open>\<open>buf[i]\<close> for \<open>i \<ge> 0\<close>: IndexError out of range\<close>
  "getitem buf i = (if i < length buf then Inr (buf ! i) else Inl IndexError)"

definition slice :: "bytes \<Rightarrow> nat \<Rightarrow> nat \<Rightarrow> bytes" where
  \<comment> \<open>\<open>buf[i:j]\<close> for \<open>0 \<le> i \<le> j\<close>: clipped to the buffer, never raises\<close>
  "slice buf i j = take (j - i) (drop i buf)"

definition is_cont :: "byte \<Rightarrow> bool" where
  "is_cont b \<longleftrightarrow> 0x80 \<le> b \<and> b \<le> 0xBF"

definition cont_bits :: "byte \<Rightarrow> nat" where
  "cont_bits b = unat b - 0x80"

text \<open>
  \<open>bytes.decode()\<close> with its defaults is strict UTF-8: shortest form only, no
  surrogates, nothing above U+10FFFF. \<open>None\<close> stands for UnicodeDecodeError.
\<close>

fun utf8_decode :: "bytes \<Rightarrow> pystr option" where
  "utf8_decode [] = Some []"
| "utf8_decode (b0 # bs) =
     (if b0 < 0x80 then map_option ((#) (unat b0)) (utf8_decode bs)
      else if 0xC2 \<le> b0 \<and> b0 \<le> 0xDF then
        (case bs of
           b1 # r \<Rightarrow>
             if is_cont b1
             then map_option ((#) ((unat b0 - 0xC0) * 64 + cont_bits b1)) (utf8_decode r)
             else None
         | _ \<Rightarrow> None)
      else if 0xE0 \<le> b0 \<and> b0 \<le> 0xEF then
        (case bs of
           b1 # b2 # r \<Rightarrow>
             if (if b0 = 0xE0 then 0xA0 else 0x80) \<le> b1
                \<and> b1 \<le> (if b0 = 0xED then 0x9F else 0xBF) \<and> is_cont b2
             then map_option
                    ((#) ((unat b0 - 0xE0) * 4096 + cont_bits b1 * 64 + cont_bits b2))
                    (utf8_decode r)
             else None
         | _ \<Rightarrow> None)
      else if 0xF0 \<le> b0 \<and> b0 \<le> 0xF4 then
        (case bs of
           b1 # b2 # b3 # r \<Rightarrow>
             if (if b0 = 0xF0 then 0x90 else 0x80) \<le> b1
                \<and> b1 \<le> (if b0 = 0xF4 then 0x8F else 0xBF) \<and> is_cont b2 \<and> is_cont b3
             then map_option
                    ((#) ((unat b0 - 0xF0) * 262144 + cont_bits b1 * 4096
                          + cont_bits b2 * 64 + cont_bits b3))
                    (utf8_decode r)
             else None
         | _ \<Rightarrow> None)
      else None)"

definition decode :: "bytes \<Rightarrow> py_error + pystr" where
  "decode bs = (case utf8_decode bs of None \<Rightarrow> Inl UnicodeDecodeError | Some s \<Rightarrow> Inr s)"

section \<open>The product database scanner (lutris/util/bnet.py)\<close>

text \<open>
  \<open>regex_product_db = re.compile(b'\x0A..\x0A')\<close>: a line feed, two bytes that are
  not line feeds (the dot of a bytes pattern excludes \<open>\n\<close>), a line feed.
  \<open>finditer\<close> yields the start of every match, leftmost first, and resumes the search
  at the end of the previous match, four bytes after its start.
\<close>

fun finditer_from :: "nat \<Rightarrow> bytes \<Rightarrow> nat list" where
  "finditer_from p (a # b # c # d # rest) =
     (if a = 0x0A \<and> b \<noteq> 0x0A \<and> c \<noteq> 0x0A \<and> d = 0x0A
      then p # finditer_from (p + 4) rest
      else finditer_from (p + 1) (b # c # d # rest))"
| "finditer_from p _ = []"

definition finditer :: "bytes \<Rightarrow> nat list" where
  "finditer buf = finditer_from 0 buf"

record product =
  gameid :: pystr
  path :: pystr
  code :: pystr

type_synonym products = "pystr \<rightharpoonup> product"

text \<open>The body of the \<open>for match_obj in ...\<close> loop, up to the dictionary store.\<close>

definition parse_record :: "bytes \<Rightarrow> nat \<Rightarrow> py_error + product" where
  "parse_record buf start =
     (let offset = start + 4 in
      ebind (getitem buf offset) (\<lambda>len1.
      let offset = offset + 1 in
      ebind (decode (slice buf offset (offset + unat len1))) (\<lambda>name.
      let offset = offset + unat len1; offset = offset + 1 in
      ebind (getitem buf offset) (\<lambda>len2.
      let offset = offset + 1 in
      ebind (decode (slice buf offset (offset + unat len2))) (\<lambda>cd.
      let offset = offset + unat len2; offset = offset + 3 in
      ebind (getitem buf offset) (\<lambda>len3.
      let offset = offset + 1 in
      ebind (decode (slice buf offset (offset + unat len3))) (\<lambda>pth.
      Inr \<lparr>gameid = name, path = pth, code = cd\<rparr>)))))))"

fun products_loop :: "bytes \<Rightarrow> products \<Rightarrow> nat list \<Rightarrow> py_error + products" where
  "products_loop buf products [] = Inr products"
| "products_loop buf products (s # ss) =
     (case parse_record buf s of
        Inl e \<Rightarrow> Inl e
      | Inr r \<Rightarrow> products_loop buf (products(gameid r \<mapsto> r)) ss)"

definition products_scan :: "bytes \<Rightarrow> py_error + products" where
  \<comment> \<open>\<open>products_parse\<close> after \<open>buf = file.read()\<close>\<close>
  "products_scan buf = products_loop buf Map.empty (finditer buf)"

text \<open>
  A file object opened for reading: its bytes and the read position. \<open>read()\<close> returns
  what lies after the position and moves the position to the end.
\<close>

record pyfile =
  content :: bytes
  pos :: nat

definition file_read :: "pyfile \<Rightarrow> bytes \<times> pyfile" where
  "file_read f = (drop (pos f) (content f), f\<lparr>pos := max (pos f) (length (content f))\<rparr>)"

definition products_parse :: "pyfile \<Rightarrow> (py_error + products) \<times> pyfile" where
  "products_parse file = (let (buf, file') = file_read file in (products_scan buf, file'))"

definition open_rb :: "bytes \<Rightarrow> pyfile" where
  \<comment> \<open>\<open>open(path, "rb")\<close> on a file holding \<open>b\<close>\<close>
  "open_rb b = \<lparr>content = b, pos = 0\<rparr>"

definition entry_of :: "py_error + products \<Rightarrow> pystr \<Rightarrow> product option" where
  \<comment> \<open>the entry stored under a key in a returned mapping; nothing when the scan raised\<close>
  "entry_of res k = (case res of Inl e \<Rightarrow> None | Inr m \<Rightarrow> m k)"

subsection \<open>Vocabulary for statements about the scanner\<close>

text \<open>The places of a buffer where the pattern of \<open>regex_product_db\<close> matches.\<close>

definition is_anchor :: "bytes \<Rightarrow> nat \<Rightarrow> bool" where
  "is_anchor buf s \<longleftrightarrow>
     s + 3 < length buf \<and> buf ! s = 0x0A \<and> buf ! (s + 1) \<noteq> 0x0A
       \<and> buf ! (s + 2) \<noteq> 0x0A \<and> buf ! (s + 3) = 0x0A"

definition anchors :: "bytes \<Rightarrow> nat list" where
  "anchors buf = filter (is_anchor buf) [0..<length buf]"

text \<open>
  A record as it lies in the file: the two bytes under the dots of the anchor, the three
  fields, and the bytes the loop steps over (one before the length of the code, three
  before the length of the path).
\<close>

record db_record =
  wild1 :: byte
  wild2 :: byte
  name_bytes :: bytes
  skip1 :: byte
  code_bytes :: bytes
  skip3 :: bytes
  path_bytes :: bytes

definition encode_record :: "db_record \<Rightarrow> bytes" where
  "encode_record r =
     [0x0A, wild1 r, wild2 r, 0x0A, of_nat (length (name_bytes r))] @ name_bytes r
     @ [skip1 r, of_nat (length (code_bytes r))] @ code_bytes r
     @ skip3 r @ [of_nat (length (path_bytes r))] @ path_bytes r"

definition well_formed :: "db_record \<Rightarrow> bool" where
  \<comment> \<open>an anchor the pattern matches, lengths that fit a byte, fields that are UTF-8\<close>
  "well_formed r \<longleftrightarrow>
     wild1 r \<noteq> 0x0A \<and> wild2 r \<noteq> 0x0A \<and> length (skip3 r) = 3
     \<and> length (name_bytes r) < 256 \<and> length (code_bytes r) < 256
     \<and> length (path_bytes r) < 256
     \<and> utf8_decode (name_bytes r) \<noteq> None \<and> utf8_decode (code_bytes r) \<noteq> None
     \<and> utf8_decode (path_bytes r) \<noteq> None"

definition decoded :: "db_record \<Rightarrow> product" where
  "decoded r = \<lparr>gameid = the (utf8_decode (name_bytes r)),
                path = the (utf8_decode (path_bytes r)),
                code = the (utf8_decode (code_bytes r))\<rparr>"

definition record_at :: "bytes \<Rightarrow> nat \<Rightarrow> db_record \<Rightarrow> bool" where
  "record_at buf s r \<longleftrightarrow> take (length (encode_record r)) (drop s buf) = encode_record r"

text \<open>Records lying in the buffer from left to right, each after the end of the one before.\<close>

fun laid_out :: "bytes \<Rightarrow> nat \<Rightarrow> nat list \<Rightarrow> db_record list \<Rightarrow> bool" where
  "laid_out buf lo [] [] = True"
| "laid_out buf lo (s # ss) (r # rs) =
     (lo \<le> s \<and> record_at buf s r \<and> laid_out buf (s + length (encode_record r)) ss rs)"
| "laid_out buf lo _ _ = False"

text \<open>
  The buffer holds the records \<open>rs\<close> at the offsets \<open>starts\<close>, and the anchor pattern
  occurs at these offsets and nowhere else.
\<close>

definition anchor_delimited :: "bytes \<Rightarrow> nat list \<Rightarrow> db_record list \<Rightarrow> bool" where
  "anchor_delimited buf starts rs \<longleftrightarrow> laid_out buf 0 starts rs \<and> anchors buf = starts"

text \<open>
  A record without a line feed in its fields and in the bytes the loop steps over, and
  the offsets of records that follow one another without a gap.
\<close>

definition lf_free :: "db_record \<Rightarrow> bool" where
  "lf_free r \<longleftrightarrow>
     0x0A \<notin> set (name_bytes r) \<and> 0x0A \<notin> set (code_bytes r) \<and> 0x0A \<notin> set (path_bytes r)
     \<and> skip1 r \<noteq> 0x0A \<and> 0x0A \<notin> set (skip3 r)"

fun record_starts :: "nat \<Rightarrow> db_record list \<Rightarrow> nat list" where
  "record_starts p [] = []"
| "record_starts p (r # rs) = p # record_starts (p + length (encode_record r)) rs"

text \<open>
  The value of \<open>offset\<close> when the loop body ends for the match at \<open>s\<close>: one past the
  last byte the record claims. The three length bytes are read at \<open>s + 4\<close>, after the
  name and after the code.
\<close>

definition len1_at :: "bytes \<Rightarrow> nat \<Rightarrow> nat" where
  "len1_at buf s = unat (buf ! (s + 4))"

definition len2_at :: "bytes \<Rightarrow> nat \<Rightarrow> nat" where
  "len2_at buf s = unat (buf ! (s + 6 + len1_at buf s))"

definition len3_at :: "bytes \<Rightarrow> nat \<Rightarrow> nat" where
  "len3_at buf s = unat (buf ! (s + 10 + len1_at buf s + len2_at buf s))"

definition length_byte_missing :: "bytes \<Rightarrow> nat \<Rightarrow> bool" where
  \<comment> \<open>one of the three length bytes of the record at \<open>s\<close> lies beyond the buffer\<close>
  "length_byte_missing buf s \<longleftrightarrow>
     length buf \<le> s + 4 \<or> length buf \<le> s + 6 + len1_at buf s
     \<or> length buf \<le> s + 10 + len1_at buf s + len2_at buf s"

definition consumed_end :: "bytes \<Rightarrow> nat \<Rightarrow> nat" where
  "consumed_end buf s = s + 11 + len1_at buf s + len2_at buf s + len3_at buf s"

definition truncated_mid_field :: "bytes \<Rightarrow> nat \<Rightarrow> bool" where
  \<comment> \<open>the buffer ends before the record at \<open>s\<close> does\<close>
  "truncated_mid_field buf s \<longleftrightarrow> length_byte_missing buf s \<or> length buf < consumed_end buf s"

text \<open>
  The three slices the loop body decodes for the match at \<open>s\<close>, clipped to the buffer as
  slices are, and whether all three are UTF-8.
\<close>

definition name_field :: "bytes \<Rightarrow> nat \<Rightarrow> bytes" where
  "name_field buf s = slice buf (s + 5) (s + 5 + len1_at buf s)"

definition code_field :: "bytes \<Rightarrow> nat \<Rightarrow> bytes" where
  "code_field buf s =
     slice buf (s + 7 + len1_at buf s) (s + 7 + len1_at buf s + len2_at buf s)"

definition path_field :: "bytes \<Rightarrow> nat \<Rightarrow> bytes" where
  "path_field buf s =
     slice buf (s + 11 + len1_at buf s + len2_at buf s)
       (s + 11 + len1_at buf s + len2_at buf s + len3_at buf s)"

definition fields_decode :: "bytes \<Rightarrow> nat \<Rightarrow> bool" where
  "fields_decode buf s \<longleftrightarrow>
     utf8_decode (name_field buf s) \<noteq> None \<and> utf8_decode (code_field buf s) \<noteq> None
     \<and> utf8_decode (path_field buf s) \<noteq> None"

subsection \<open>Sample databases\<close>

text \<open>Two records, \<open>bna\<close> (code \<open>BN\<close>, path \<open>C:/B\<close>) and \<open>pro\<close> (code \<open>Pro\<close>, path \<open>C:/O\<close>).\<close>

definition example_db :: bytes where
  "example_db =
     [0x0A, 0x14, 0x01, 0x0A, 3, 0x62, 0x6E, 0x61, 0x12, 2, 0x42, 0x4E,
      0x1A, 0x08, 0x01, 4, 0x43, 0x3A, 0x2F, 0x42,
      0x0A, 0x15, 0x01, 0x0A, 3, 0x70, 0x72, 0x6F, 0x12, 3, 0x50, 0x72, 0x6F,
      0x1A, 0x08, 0x01, 4, 0x43, 0x3A, 0x2F, 0x4F]"

definition example_rec1 :: db_record where
  "example_rec1 = \<lparr>wild1 = 0x14, wild2 = 0x01, name_bytes = [0x62, 0x6E, 0x61],
     skip1 = 0x12, code_bytes = [0x42, 0x4E], skip3 = [0x1A, 0x08, 0x01],
     path_bytes = [0x43, 0x3A, 0x2F, 0x42]\<rparr>"

definition example_rec2 :: db_record where
  "example_rec2 = \<lparr>wild1 = 0x15, wild2 = 0x01, name_bytes = [0x70, 0x72, 0x6F],
     skip1 = 0x12, code_bytes = [0x50, 0x72, 0x6F], skip3 = [0x1A, 0x08, 0x01],
     path_bytes = [0x43, 0x3A, 0x2F, 0x4F]\<rparr>"

text \<open>The first record of \<open>example_db\<close>, cut two bytes into its four-byte path.\<close>

definition cut_db :: bytes where
  "cut_db =
     [0x0A, 0x14, 0x01, 0x0A, 3, 0x62, 0x6E, 0x61, 0x12, 2, 0x42, 0x4E,
      0x1A, 0x08, 0x01, 4, 0x43, 0x3A]"

text \<open>An anchor and a length byte announcing three name bytes, of which two are there.\<close>

definition tiny_db :: bytes where
  "tiny_db = [0x0A, 0x14, 0x01, 0x0A, 3, 0x62, 0x6E]"

text \<open>
  A record \<open>a\<close> with code \<open>b\<close> whose path announces three bytes; the buffer ends after
  the first two bytes of a three-byte UTF-8 sequence.
\<close>

definition cut_utf8_db :: bytes where
  "cut_utf8_db =
     [0x0A, 0x14, 0x01, 0x0A, 1, 0x61, 0x12, 1, 0x62, 0x1A, 0x08, 0x01, 3, 0xE2, 0x82]"

text \<open>
  One record whose 14-byte name is itself the byte image of a record (\<open>i\<close>, code \<open>c\<close>,
  path \<open>p\<close>), followed by code \<open>C\<close> and path \<open>P\<close>.
\<close>

definition nested_db :: bytes where
  "nested_db =
     [0x0A, 0x14, 0x01, 0x0A, 14,
        0x0A, 0x78, 0x79, 0x0A, 1, 0x69, 0x12, 1, 0x63, 0, 0, 0, 1, 0x70,
      0x12, 1, 0x43, 0x1A, 0x08, 0x01, 1, 0x50]"

text \<open>The record \<open>bna\<close> twice, first with path \<open>C:/B\<close>, then with path \<open>D:/B\<close>.\<close>

definition duplicate_db :: bytes where
  "duplicate_db =
     [0x0A, 0x14, 0x01, 0x0A, 3, 0x62, 0x6E, 0x61, 0x12, 2, 0x42, 0x4E,
      0x1A, 0x08, 0x01, 4, 0x43, 0x3A, 0x2F, 0x42,
      0x0A, 0x15, 0x01, 0x0A, 3, 0x62, 0x6E, 0x61, 0x12, 2, 0x42, 0x4E,
      0x1A, 0x08, 0x01, 4, 0x44, 0x3A, 0x2F, 0x42]"

text \<open>
  The launcher's own record \<open>battle.net\<close> (code \<open>BN\<close>, path \<open>C:/B\<close>) and the record
  \<open>prometheus\<close> (code \<open>Pro\<close>, path \<open>C:/O\<close>).
\<close>

definition bnet_db :: bytes where
  "bnet_db =
     [0x0A, 0x14, 0x01, 0x0A, 10,
        0x62, 0x61, 0x74, 0x74, 0x6C, 0x65, 0x2E, 0x6E, 0x65, 0x74,
      0x12, 2, 0x42, 0x4E, 0x1A, 0x08, 0x01, 4, 0x43, 0x3A, 0x2F, 0x42,
      0x0A, 0x15, 0x01, 0x0A, 10,
        0x70, 0x72, 0x6F, 0x6D, 0x65, 0x74, 0x68, 0x65, 0x75, 0x73,
      0x12, 3, 0x50, 0x72, 0x6F, 0x1A, 0x08, 0x01, 4, 0x43, 0x3A, 0x2F, 0x4F]"

section \<open>Files, configuration values and the world outside\<close>

text \<open>
  Configuration dictionaries hold \<open>None\<close>, booleans, integers and strings. \<open>truthy\<close> is
  Python's truth test, \<open>py_or\<close> the operator \<open>or\<close>, \<open>dict_get\<close> is \<open>d.get(k)\<close> and
  \<open>dict_index\<close> is \<open>d[k]\<close>.
\<close>

datatype pyval = PNone | PBool bool | PInt int | PStr pystr

fun truthy :: "pyval \<Rightarrow> bool" where
  "truthy PNone = False"
| "truthy (PBool b) = b"
| "truthy (PInt i) = (i \<noteq> 0)"
| "truthy (PStr s) = (s \<noteq> [])"

definition py_or :: "pyval \<Rightarrow> pyval \<Rightarrow> pyval" where
  "py_or a b = (if truthy a then a else b)"

type_synonym config = "string \<rightharpoonup> pyval"

definition dict_get :: "config \<Rightarrow> string \<Rightarrow> pyval" where
  "dict_get d k = (case d k of None \<Rightarrow> PNone | Some v \<Rightarrow> v)"

definition dict_index :: "config \<Rightarrow> string \<Rightarrow> py_error + pyval" where
  "dict_index d k = (case d k of None \<Rightarrow> Inl KeyError | Some v \<Rightarrow> Inr v)"

text \<open>
  The file system maps a path to a regular file with its bytes or to a directory. The
  journal records what the code does to the outside: log lines, sleeping, signals and
  the calls into Wine.
\<close>

datatype node = File bytes | Dir

type_synonym fsys = "pystr \<rightharpoonup> node"

datatype event =
    Log string
  | Sleep nat
  | SuperPrelaunch
  | SuperStop
  | KillPid pyval
  | MakeDirs pystr
  | WineCreatePrefix pystr pyval pystr
  | SetupX360ce pyval

record world =
  fs :: fsys
  journal :: "event list"

definition os_path_exists :: "fsys \<Rightarrow> pystr \<Rightarrow> bool" where
  "os_path_exists f p \<longleftrightarrow> f p \<noteq> None"

definition os_path_isdir :: "fsys \<Rightarrow> pystr \<Rightarrow> bool" where
  "os_path_isdir f p \<longleftrightarrow> f p = Some Dir"

definition slash :: nat where
  "slash = 47"

definition join2 :: "pystr \<Rightarrow> pystr \<Rightarrow> pystr" where
  \<comment> \<open>one round of the loop of \<open>posixpath.join\<close>\<close>
  "join2 a b =
     (if b \<noteq> [] \<and> hd b = slash then b
      else if a = [] \<or> last a = slash then a @ b
      else a @ slash # b)"

definition os_path_join :: "pystr \<Rightarrow> pystr list \<Rightarrow> pystr" where
  "os_path_join a ps = foldl join2 a ps"

definition os_path_dirname :: "pystr \<Rightarrow> pystr" where
  \<comment> \<open>\<open>posixpath.dirname\<close>: up to the last slash, trailing slashes removed unless all are\<close>
  "os_path_dirname p =
     (let head = rev (dropWhile (\<lambda>c. c \<noteq> slash) (rev p)) in
      if head \<noteq> [] \<and> \<not> list_all (\<lambda>c. c = slash) head
      then rev (dropWhile (\<lambda>c. c = slash) (rev head))
      else head)"

definition logger :: "string \<Rightarrow> world \<Rightarrow> world" where
  "logger level w = w\<lparr>journal := journal w @ [Log level]\<rparr>"

definition fs_effect ::
  "event \<Rightarrow> (fsys \<Rightarrow> py_error + fsys) \<Rightarrow> world \<Rightarrow> (py_error + unit) \<times> world" where
  \<comment> \<open>a call that changes the file system or raises, noted in the journal\<close>
  "fs_effect ev f w =
     (case f (fs w) of
        Inl e \<Rightarrow> (Inl e, w\<lparr>journal := journal w @ [ev]\<rparr>)
      | Inr f' \<Rightarrow> (Inr (), \<lparr>fs = f', journal = journal w @ [ev]\<rparr>))"

section \<open>Reading the database file (lutris/util/bnet.py)\<close>

definition battle_net :: pystr where
  "battle_net = str_of ''battle.net''"

definition read_config :: "pystr \<Rightarrow> world \<Rightarrow> (py_error + products option) \<times> world" where
  "read_config product_db_path w =
     (if \<not> os_path_exists (fs w) product_db_path then (Inr None, w)
      else
        (case fs w product_db_path of
           Some (File b) \<Rightarrow>
             (case fst (products_parse (open_rb b)) of
                Inl e \<Rightarrow> (Inl e, w)
              | Inr config \<Rightarrow>
                  (case config battle_net of
                     None \<Rightarrow> (Inr None, logger ''error'' w)
                   | Some entry \<Rightarrow> (Inr (Some config), w)))
         | _ \<Rightarrow> (Inl IsADirectoryError, w)))"

section \<open>The generic runner (lutris/runners/runner.py)\<close>

text \<open>
  \<open>Runner.is_installed\<close>; \<open>get_executable\<close> is abstract in the base class, its result (a
  path or \<open>None\<close>) is a parameter. The function body ends after the \<open>if\<close>, so its value
  is \<open>None\<close> when the test fails.
\<close>

definition Runner_is_installed :: "pystr option \<Rightarrow> fsys \<Rightarrow> pyval" where
  "Runner_is_installed executable f =
     (case executable of
        Some exe \<Rightarrow> if exe \<noteq> [] \<and> os_path_exists f exe then PBool True else PNone
      | None \<Rightarrow> PNone)"

section \<open>The Battle.net runner (lutris/runners/winebattlenet.py)\<close>

text \<open>
  Code of other modules that the runner calls and that is not part of the sources at hand
  (Wine's own runner class, the Wine tools, \<open>shlex\<close>, \<open>os.makedirs\<close>) is a field of \<open>ext\<close>.
  \<open>play_through_bnet\<close> stands for the branch of \<open>play\<close> that starts the launcher: it
  rewrites the launcher's JSON configuration and reads the Wine registry.
\<close>

record ext =
  get_executable :: pystr
  get_env :: "(pystr \<times> pystr) list"
  os_makedirs :: "pystr \<Rightarrow> fsys \<Rightarrow> py_error + fsys"
  wine_create_prefix :: "pystr \<Rightarrow> pyval \<Rightarrow> pystr \<Rightarrow> fsys \<Rightarrow> py_error + fsys"
  expanduser :: "pystr \<Rightarrow> pystr"
  winepath :: "pystr \<Rightarrow> pystr \<Rightarrow> pystr"
  shlex_split :: "pystr \<Rightarrow> py_error + pystr list"
  setup_x360ce :: "pyval \<Rightarrow> fsys \<Rightarrow> py_error + fsys"
  play_through_bnet :: "pyval \<Rightarrow> world \<Rightarrow> (py_error + pystr list) \<times> world"

record runner =
  RUNNER_DIR :: pystr
  game_config :: config
  runner_config :: config

definition default_arch :: pystr where
  "default_arch = str_of ''win32''"

definition gamelist :: "pystr \<rightharpoonup> pystr \<times> pystr \<times> pystr" where
  "gamelist =
     [str_of ''prometheus'' \<mapsto>
        (str_of ''Overwatch'', str_of ''Overwatch.exe'', str_of ''Pro''),
      str_of ''prometheus_test'' \<mapsto>
        (str_of ''Overwatch (PTR)'', str_of ''Overwatch.exe'', str_of ''Pro'')]"

definition gamelist_index :: "pyval \<Rightarrow> py_error + pystr \<times> pystr \<times> pystr" where
  "gamelist_index k =
     (case k of
        PStr g \<Rightarrow> (case gamelist g of None \<Rightarrow> Inl KeyError | Some t \<Rightarrow> Inr t)
      | _ \<Rightarrow> Inl KeyError)"

definition runner_gameid :: "runner \<Rightarrow> pyval" where
  \<comment> \<open>the property \<open>gameid\<close>\<close>
  "runner_gameid r = py_or (dict_get (game_config r) ''gameid'') (PStr [])"

definition get_default_prefix :: "runner \<Rightarrow> pyval \<Rightarrow> pystr" where
  "get_default_prefix r arch =
     (let arch = (if \<not> truthy arch then PStr default_arch else arch);
          pth = str_of ''prefix'';
          pth = (if arch = PStr (str_of ''win64'') then pth @ str_of ''64'' else pth)
      in os_path_join (RUNNER_DIR r) [str_of ''winebattlenet'', pth])"

text \<open>The two paths \<open>get_default_prefix\<close> can return.\<close>

definition prefix32 :: "runner \<Rightarrow> pystr" where
  "prefix32 r = os_path_join (RUNNER_DIR r) [str_of ''winebattlenet'', str_of ''prefix'']"

definition prefix64 :: "runner \<Rightarrow> pystr" where
  "prefix64 r = os_path_join (RUNNER_DIR r) [str_of ''winebattlenet'', str_of ''prefix64'']"

definition create_prefix ::
  "ext \<Rightarrow> runner \<Rightarrow> pystr \<Rightarrow> pyval \<Rightarrow> world \<Rightarrow> (py_error + unit) \<times> world" where
  "create_prefix x r prefix_dir arch w =
     (let w = logger ''debug'' w;
          arch = (if \<not> truthy arch then PStr default_arch else arch);
          wine_path = get_executable x;
          d = os_path_dirname prefix_dir
      in case (if \<not> os_path_exists (fs w) d
               then fs_effect (MakeDirs d) (os_makedirs x d) w
               else (Inr (), w)) of
           (Inl e, w) \<Rightarrow> (Inl e, w)
         | (Inr u, w) \<Rightarrow>
             fs_effect (WineCreatePrefix prefix_dir arch wine_path)
               (wine_create_prefix x prefix_dir arch wine_path) w)"

definition get_or_create_default_prefix ::
  "ext \<Rightarrow> runner \<Rightarrow> pyval \<Rightarrow> world \<Rightarrow> (py_error + pystr) \<times> world" where
  "get_or_create_default_prefix x r arch w =
     (let arch = (if \<not> truthy arch then PStr default_arch else arch);
          prefix = get_default_prefix r arch
      in if \<not> os_path_exists (fs w) prefix
         then (case create_prefix x r prefix arch w of
                 (Inl e, w) \<Rightarrow> (Inl e, w)
               | (Inr u, w) \<Rightarrow> (Inr prefix, w))
         else (Inr prefix, w))"

definition prefix_path :: "ext \<Rightarrow> runner \<Rightarrow> world \<Rightarrow> (py_error + pystr) \<times> world" where
  "prefix_path x r w =
     (let configured = dict_get (game_config r) ''prefix'' in
      if truthy configured
      then (case configured of
              PStr s \<Rightarrow> (Inr (expanduser x s), w)
            | _ \<Rightarrow> (Inl TypeError, w))
      else (case get_or_create_default_prefix x r (dict_get (game_config r) ''arch'') w of
              (Inl e, w) \<Rightarrow> (Inl e, w)
            | (Inr s, w) \<Rightarrow> (Inr (expanduser x s), w)))"

definition get_bnet_games :: "runner \<Rightarrow> world \<Rightarrow> (py_error + products option) \<times> world" where
  "get_bnet_games r w =
     (let product_db = os_path_join (get_default_prefix r PNone)
                         [str_of ''drive_c/ProgramData/Battle.net/Agent/product.db'']
      in if \<not> os_path_exists (fs w) product_db then (Inr None, w)
         else read_config product_db w)"

text \<open>
  \<open>play\<close>, in the order of the source: the x360ce set-up, then either the direct start
  (resolve the game directory, test it, build the command) or the start through the
  launcher. The result is the \<open>launch_info\<close> dictionary or the \<open>{'error', 'file'}\<close> one.
\<close>

datatype launch =
    LaunchInfo "(pystr \<times> pystr) list" "pystr list"
  | ErrorInfo pystr pystr

definition play_x360ce :: "ext \<Rightarrow> runner \<Rightarrow> world \<Rightarrow> (py_error + unit) \<times> world" where
  "play_x360ce x r w =
     (let p = dict_get (runner_config r) ''x360ce-path'' in
      if truthy p then fs_effect (SetupX360ce p) (setup_x360ce x p) w else (Inr (), w))"

definition resolve_game_dir ::
  "ext \<Rightarrow> runner \<Rightarrow> world \<Rightarrow> (py_error + pystr) \<times> world" where
  \<comment> \<open>\<open>config = self.get_bnet_games()\<close> up to \<open>game_dir = winepath(...)\<close>\<close>
  "resolve_game_dir x r w =
     (case get_bnet_games r w of
        (Inl e, w) \<Rightarrow> (Inl e, w)
      | (Inr None, w) \<Rightarrow> (Inl TypeError, w)
      | (Inr (Some config), w) \<Rightarrow>
          (case runner_gameid r of
             PStr g \<Rightarrow>
               (case config g of
                  None \<Rightarrow> (Inl KeyError, w)
                | Some entry \<Rightarrow>
                    (case prefix_path x r w of
                       (Inl e, w) \<Rightarrow> (Inl e, w)
                     | (Inr pp, w) \<Rightarrow> (Inr (winepath x (path entry) pp), w)))
           | _ \<Rightarrow> (Inl KeyError, w)))"

definition split_args :: "ext \<Rightarrow> pyval \<Rightarrow> py_error + pystr list" where
  \<comment> \<open>\<open>if args: for arg in shlex.split(args): command.append(arg)\<close>\<close>
  "split_args x a =
     (if truthy a
      then (case a of PStr s \<Rightarrow> shlex_split x s | _ \<Rightarrow> Inl AttributeError)
      else Inr [])"

definition direct_command :: "ext \<Rightarrow> runner \<Rightarrow> pystr \<Rightarrow> pyval \<Rightarrow> py_error + pystr list" where
  "direct_command x r game_path game_args =
     (let command = [get_executable x];
          runner_args = py_or (dict_get (runner_config r) ''args'') (PStr [])
      in ebind (split_args x runner_args) (\<lambda>ra.
         let command = command @ ra @ [game_path] in
         ebind (split_args x game_args) (\<lambda>ga. Inr (command @ ga))))"

definition play :: "ext \<Rightarrow> runner \<Rightarrow> world \<Rightarrow> (py_error + launch) \<times> world" where
  "play x r w =
     (let game_args = py_or (dict_get (game_config r) ''args'') (PStr []);
          env = get_env x
      in case play_x360ce x r w of
           (Inl e, w) \<Rightarrow> (Inl e, w)
         | (Inr u, w) \<Rightarrow>
             (case dict_index (runner_config r) ''run_without_bnet'' of
                Inl e \<Rightarrow> (Inl e, w)
              | Inr flag \<Rightarrow>
                  if flag = PBool True then
                    (case resolve_game_dir x r w of
                       (Inl e, w) \<Rightarrow> (Inl e, w)
                     | (Inr game_dir, w) \<Rightarrow>
                         if \<not> os_path_isdir (fs w) game_dir
                         then (Inr (ErrorInfo (str_of ''DIR_NOT_FOUND'') game_dir), w)
                         else
                           (case gamelist_index (runner_gameid r) of
                              Inl e \<Rightarrow> (Inl e, w)
                            | Inr (title, exe, short) \<Rightarrow>
                                let game_path = os_path_join game_dir [exe] in
                                if \<not> os_path_exists (fs w) game_path
                                then (Inr (ErrorInfo (str_of ''FILE_NOT_FOUND'') game_path), w)
                                else
                                  (case direct_command x r game_path game_args of
                                     Inl e \<Rightarrow> (Inl e, w)
                                   | Inr command \<Rightarrow> (Inr (LaunchInfo env command), w))))
                  else
                    (case play_through_bnet x game_args w of
                       (Inl e, w) \<Rightarrow> (Inl e, w)
                     | (Inr command, w) \<Rightarrow> (Inr (LaunchInfo env command), w))))"

subsection \<open>Stopping the launcher before a start\<close>

text \<open>
  What \<open>system.get_pid\<close> and \<open>Process(pid).state\<close> report depends on what has happened so
  far, so both are functions of the journal. \<open>check_shutdown\<close> returns \<open>True\<close> from inside
  its loop and \<open>None\<close> when the loop runs out.
\<close>

record procs =
  get_pid :: "string \<Rightarrow> event list \<Rightarrow> pyval"
  proc_state :: "pyval \<Rightarrow> event list \<Rightarrow> pystr"

definition is_running :: "procs \<Rightarrow> event list \<Rightarrow> bool" where
  "is_running p h =
     (let pid = get_pid p ''Battle.net.exe$'' h in
      if truthy pid then proc_state p pid h \<noteq> str_of ''Z'' else False)"

definition kill :: "procs \<Rightarrow> event list \<Rightarrow> event list" where
  "kill p h =
     (let h = h @ [KillPid (get_pid p ''Battle.net.exe$'' h)]
      in h @ [KillPid (get_pid p ''Agent.exe$'' h)])"

definition shutdown :: "event list \<Rightarrow> event list" where
  "shutdown h = h @ [Log ''debug'', SuperStop]"

fun check_shutdown :: "procs \<Rightarrow> nat \<Rightarrow> event list \<Rightarrow> pyval \<times> event list" where
  "check_shutdown p 0 h = (PNone, h)"
| "check_shutdown p (Suc attempts) h =
     (let h = h @ [Sleep 1] in
      if \<not> is_running p h then (PBool True, h) else check_shutdown p attempts h)"

definition prelaunch :: "procs \<Rightarrow> event list \<Rightarrow> bool \<times> event list" where
  "prelaunch p h =
     (let h = h @ [SuperPrelaunch] in
      if is_running p h then
        (let h = shutdown (h @ [Log ''info'']) in
         case check_shutdown p 10 h of
           (r1, h) \<Rightarrow>
             if \<not> truthy r1 then
               (let h = kill p (h @ [Log ''info'']) in
                case check_shutdown p 5 h of
                  (r2, h) \<Rightarrow>
                    if \<not> truthy r2 then (False, h @ [Log ''error'']) else (True, h))
             else (True, h))
      else (True, h))"

text \<open>Counting the liveness polls (one sleep each) before and after the first kill.\<close>

fun is_sleep :: "event \<Rightarrow> bool" where
  "is_sleep (Sleep n) = True"
| "is_sleep e = False"

fun is_kill :: "event \<Rightarrow> bool" where
  "is_kill (KillPid v) = True"
| "is_kill e = False"

definition polls :: "event list \<Rightarrow> nat" where
  "polls h = length (filter is_sleep h)"

definition first_tier_polls :: "event list \<Rightarrow> nat" where
  "first_tier_polls h = polls (takeWhile (\<lambda>e. \<not> is_kill e) h)"

definition second_tier_polls :: "event list \<Rightarrow> nat" where
  "second_tier_polls h = polls (dropWhile (\<lambda>e. \<not> is_kill e) h)"

text \<open>A launcher that is there and never exits, whatever is sent to it.\<close>

definition immortal :: procs where
  "immortal = \<lparr>get_pid = (\<lambda>pat h. PInt 4242), proc_state = (\<lambda>pid h. str_of ''S'')\<rparr>"

text \<open>
  The launcher is found running at each of the first \<open>n\<close> polls that follow the journal
  \<open>h\<close>; it is found gone for the first time at poll \<open>k\<close>. The journal after the graceful
  stop has been sent, and after the kill that follows ten polls.
\<close>

definition alive_through :: "procs \<Rightarrow> event list \<Rightarrow> nat \<Rightarrow> bool" where
  "alive_through p h n \<longleftrightarrow> list_all (\<lambda>k. is_running p (h @ replicate k (Sleep 1))) [1..<Suc n]"

definition exits_at :: "procs \<Rightarrow> event list \<Rightarrow> nat \<Rightarrow> bool" where
  "exits_at p h k \<longleftrightarrow>
     0 < k \<and> alive_through p h (k - 1) \<and> \<not> is_running p (h @ replicate k (Sleep 1))"

definition after_stop :: "event list \<Rightarrow> event list" where
  "after_stop h = shutdown (h @ [SuperPrelaunch, Log ''info''])"

definition after_kill :: "procs \<Rightarrow> event list \<Rightarrow> event list" where
  "after_kill p h = kill p (after_stop h @ replicate 10 (Sleep 1) @ [Log ''info''])"

text \<open>
  A launcher that is not there, one that is gone once the graceful stop has been sent, and
  one that is gone once a kill has been sent.
\<close>

definition absent :: procs where
  "absent = \<lparr>get_pid = (\<lambda>pat h. PNone), proc_state = (\<lambda>pid h. str_of ''S'')\<rparr>"

definition exits_on_stop :: procs where
  "exits_on_stop =
     \<lparr>get_pid = (\<lambda>pat h. if SuperStop \<in> set h then PNone else PInt 4242),
      proc_state = (\<lambda>pid h. str_of ''S'')\<rparr>"

definition exits_on_kill :: procs where
  "exits_on_kill =
     \<lparr>get_pid = (\<lambda>pat h. if list_ex is_kill h then PNone else PInt 4242),
      proc_state = (\<lambda>pid h. str_of ''S'')\<rparr>"

section \<open>Sample installations\<close>

text \<open>
  A runner directory \<open>/r\<close> whose 32-bit prefix exists and holds \<open>bnet_db\<close> as its product
  database; the game is \<open>prometheus\<close> and is to be run without the launcher. The Wine
  tools create the directory they are asked for, \<open>winepath\<close> answers \<open>/games/Overwatch\<close>.
\<close>

definition sample_runner :: runner where
  "sample_runner =
     \<lparr>RUNNER_DIR = str_of ''/r'',
      game_config = [''gameid'' \<mapsto> PStr (str_of ''prometheus'')],
      runner_config = [''run_without_bnet'' \<mapsto> PBool True]\<rparr>"

definition sample_ext :: ext where
  "sample_ext =
     \<lparr>get_executable = str_of ''/usr/bin/wine'',
      get_env = [],
      os_makedirs = (\<lambda>d f. Inr (f(d \<mapsto> Dir))),
      wine_create_prefix = (\<lambda>d a wp f. Inr (f(d \<mapsto> Dir))),
      expanduser = (\<lambda>s. s),
      winepath = (\<lambda>d pp. str_of ''/games/Overwatch''),
      shlex_split = (\<lambda>s. Inr [s]),
      setup_x360ce = (\<lambda>v f. Inr f),
      play_through_bnet = (\<lambda>a w. (Inr [], w))\<rparr>"

definition sample_world :: world where
  "sample_world =
     \<lparr>fs = [str_of ''/r/winebattlenet/prefix'' \<mapsto> Dir,
             str_of ''/r/winebattlenet/prefix/drive_c/ProgramData/Battle.net/Agent/product.db''
               \<mapsto> File bnet_db],
      journal = []\<rparr>"

definition empty_world :: world where
  "empty_world = \<lparr>fs = Map.empty, journal = []\<rparr>"

definition duplicate_world :: world where
  "duplicate_world = \<lparr>fs = [str_of ''/p/product.db'' \<mapsto> File duplicate_db], journal = []\<rparr>"

text \<open>The entry under a key in what \<open>get_bnet_games\<close> returns, if it returns a mapping.\<close>

definition games_entry :: "py_error + products option \<Rightarrow> pystr \<Rightarrow> product option" where
  "games_entry res k = (case res of Inr (Some m) \<Rightarrow> m k | _ \<Rightarrow> None)"

section \<open>Properties of the scanner\<close>

subsection \<open>Where the pattern matches\<close>

lemma is_anchor_Cons_Suc: "is_anchor (x # xs) (Suc n) = is_anchor xs n"
  by (simp add: is_anchor_def add.commute)

lemma is_anchor_short: "length xs < 4 \<Longrightarrow> \<not> is_anchor xs n"
  by (simp add: is_anchor_def)

lemma is_anchor_head:
  "is_anchor (a # b # c # d # rest) 0 \<longleftrightarrow> a = 0x0A \<and> b \<noteq> 0x0A \<and> c \<noteq> 0x0A \<and> d = 0x0A"
  by (simp add: is_anchor_def)

lemma finditer_from_ge: "q \<in> set (finditer_from p xs) \<Longrightarrow> p \<le> q"
  by (induction p xs arbitrary: q rule: finditer_from.induct) (fastforce split: if_splits)+

lemma finditer_from_spaced: "sorted_wrt (\<lambda>a b. a + 4 \<le> b) (finditer_from p xs)"
  by (induction p xs rule: finditer_from.induct) (auto dest: finditer_from_ge)

lemma finditer_from_iff:
  "s \<in> set (finditer_from p xs) \<longleftrightarrow>
     p \<le> s \<and> is_anchor xs (s - p) \<and> (\<forall>q \<in> set (finditer_from p xs). q < s \<longrightarrow> q + 4 \<le> s)"
proof (induction p xs arbitrary: s rule: finditer_from.induct)
  case (1 p a b c d rest)
  let ?xs = "a # b # c # d # rest"
  show ?case
  proof (cases "a = 0x0A \<and> b \<noteq> 0x0A \<and> c \<noteq> 0x0A \<and> d = 0x0A")
    case True
    then have fi: "finditer_from p ?xs = p # finditer_from (p + 4) rest" by simp
    have ih: "\<And>s. s \<in> set (finditer_from (p + 4) rest) \<longleftrightarrow>
        p + 4 \<le> s \<and> is_anchor rest (s - (p + 4))
         \<and> (\<forall>q \<in> set (finditer_from (p + 4) rest). q < s \<longrightarrow> q + 4 \<le> s)"
      using "1.IH"(1) True by blast
    have anc0: "is_anchor ?xs 0" using True by (simp add: is_anchor_head)
    have shift: "p + 4 \<le> s \<Longrightarrow> is_anchor ?xs (s - p) = is_anchor rest (s - (p + 4))" for s
    proof -
      assume "p + 4 \<le> s"
      then have "s - p = Suc (Suc (Suc (Suc (s - (p + 4)))))" by arith
      then show ?thesis by (simp add: is_anchor_Cons_Suc)
    qed
    consider "s < p" | "s = p" | "p < s" "s < p + 4" | "p + 4 \<le> s" by arith
    then show ?thesis
    proof cases
      case 1
      then show ?thesis using finditer_from_ge[of s p ?xs] by auto
    next
      case 2
      have "\<not> q < p" if "q \<in> set (finditer_from (p + 4) rest)" for q
        using finditer_from_ge[OF that] by simp
      then show ?thesis using 2 anc0 fi by auto
    next
      case 3
      then have "s \<notin> set (finditer_from (p + 4) rest)"
        using finditer_from_ge[of s "p + 4" rest] by auto
      then show ?thesis using 3 fi by auto
    next
      case 4
      then show ?thesis using fi ih[of s] shift[of s] by auto
    qed
  next
    case False
    then have fi: "finditer_from p ?xs = finditer_from (p + 1) (b # c # d # rest)" by auto
    have ih: "\<And>s. s \<in> set (finditer_from (p + 1) (b # c # d # rest)) \<longleftrightarrow>
        p + 1 \<le> s \<and> is_anchor (b # c # d # rest) (s - (p + 1))
         \<and> (\<forall>q \<in> set (finditer_from (p + 1) (b # c # d # rest)). q < s \<longrightarrow> q + 4 \<le> s)"
      using "1.IH"(2) False by blast
    have anc0: "\<not> is_anchor ?xs 0" using False by (simp add: is_anchor_head)
    have shift: "p + 1 \<le> s \<Longrightarrow> is_anchor ?xs (s - p) = is_anchor (b # c # d # rest) (s - (p + 1))" for s
    proof -
      assume "p + 1 \<le> s"
      then have "s - p = Suc (s - (p + 1))" by arith
      then show ?thesis by (simp only: is_anchor_Cons_Suc)
    qed
    consider "s < p" | "s = p" | "p + 1 \<le> s" by arith
    then show ?thesis
    proof cases
      case 1
      then show ?thesis using finditer_from_ge[of s p ?xs] by auto
    next
      case 2
      then show ?thesis using anc0 fi finditer_from_ge[of s "p + 1" "b # c # d # rest"] by auto
    next
      case 3
      then show ?thesis using fi ih[of s] shift[of s] by auto
    qed
  qed
qed (simp_all add: is_anchor_short)

subsection \<open>One record\<close>

lemma getitem_drop: "getitem (drop s buf) k = getitem buf (s + k)"
  by (auto simp: getitem_def)

lemma slice_drop: "slice (drop s buf) i j = slice buf (s + i) (s + j)"
  by (simp add: slice_def add.commute)

lemma parse_record_drop: "parse_record buf s = parse_record (drop s buf) 0"
  by (simp add: parse_record_def getitem_drop slice_drop Let_def ac_simps)

lemma getitem_append:
  "getitem (xs @ ys) i = (if i < length xs then Inr (xs ! i) else getitem ys (i - length xs))"
  by (auto simp: getitem_def nth_append)

lemma slice_append_right:
  "length xs \<le> i \<Longrightarrow> slice (xs @ ys) i j = slice ys (i - length xs) (j - length xs)"
  by (simp add: slice_def)

lemma slice_prefix: "j = length xs \<Longrightarrow> slice (xs @ ys) 0 j = xs"
  by (simp add: slice_def)

lemma getitem_Cons:
  "getitem (x # xs) i = (if i = 0 then Inr x else getitem xs (i - 1))"
  by (cases i) (simp_all add: getitem_def)

lemma slice_Cons: "0 < i \<Longrightarrow> slice (x # xs) i j = slice xs (i - 1) (j - 1)"
  by (cases i) (simp_all add: slice_def)

lemma unat_of_nat_byte: "n < 256 \<Longrightarrow> unat (of_nat n :: byte) = n"
  by (simp add: unat_of_nat)

lemma ebind_Inr: "ebind (Inr v) f = f v"
  by (simp add: ebind_def)

lemma ebind_Inl: "ebind (Inl e) f = Inl e"
  by (simp add: ebind_def)

lemma parse_record_alt:
  "parse_record buf s =
     ebind (getitem buf (s + 4)) (\<lambda>l1.
     ebind (decode (slice buf (s + 5) (s + 5 + unat l1))) (\<lambda>nm.
     ebind (getitem buf (s + 6 + unat l1)) (\<lambda>l2.
     ebind (decode (slice buf (s + 7 + unat l1) (s + 7 + unat l1 + unat l2))) (\<lambda>cd.
     ebind (getitem buf (s + 10 + unat l1 + unat l2)) (\<lambda>l3.
     ebind (decode (slice buf (s + 11 + unat l1 + unat l2)
                              (s + 11 + unat l1 + unat l2 + unat l3))) (\<lambda>pth.
     Inr \<lparr>gameid = nm, path = pth, code = cd\<rparr>))))))"
  by (simp add: parse_record_def Let_def ac_simps)

lemma parse_record_encode:
  assumes "well_formed r"
  shows "parse_record (encode_record r @ post) 0 = Inr (decoded r)"
proof -
  obtain a b c where sk: "skip3 r = [a, b, c]"
    using assms by (auto simp: well_formed_def length_Suc_conv numeral_3_eq_3)
  obtain n cd pth where dec: "decode (name_bytes r) = Inr n"
      "decode (code_bytes r) = Inr cd" "decode (path_bytes r) = Inr pth"
    and dd: "decoded r = \<lparr>gameid = n, path = pth, code = cd\<rparr>"
    using assms by (auto simp: well_formed_def decode_def decoded_def)
  have len: "unat (of_nat (length (name_bytes r)) :: byte) = length (name_bytes r)"
    "unat (of_nat (length (code_bytes r)) :: byte) = length (code_bytes r)"
    "unat (of_nat (length (path_bytes r)) :: byte) = length (path_bytes r)"
    using assms by (auto simp: well_formed_def unat_of_nat_byte)
  define A where "A = [0x0A, wild1 r, wild2 r, 0x0A, of_nat (length (name_bytes r)) :: byte]"
  define t3 where "t3 = of_nat (length (path_bytes r)) # path_bytes r @ post"
  define t2 where "t2 = of_nat (length (code_bytes r)) # code_bytes r @ a # b # c # t3"
  define t1 where "t1 = name_bytes r @ skip1 r # t2"
  have e: "encode_record r @ post = A @ t1"
    by (simp add: encode_record_def A_def t1_def t2_def t3_def sk)
  have lenA: "length A = 5" and A4: "A ! 4 = of_nat (length (name_bytes r))"
    by (simp_all add: A_def)
  have l1: "getitem (A @ t1) (0 + 4) = Inr (of_nat (length (name_bytes r)))"
    by (simp add: getitem_append lenA A4)
  have s1: "slice (A @ t1) (0 + 5) (0 + 5 + length (name_bytes r)) = name_bytes r"
    by (simp add: slice_append_right lenA t1_def slice_prefix)
  have l2: "getitem (A @ t1) (0 + 6 + length (name_bytes r))
              = Inr (of_nat (length (code_bytes r)))"
    by (simp add: getitem_append lenA t1_def t2_def getitem_Cons)
  have s2: "slice (A @ t1) (0 + 7 + length (name_bytes r))
              (0 + 7 + length (name_bytes r) + length (code_bytes r)) = code_bytes r"
    by (simp add: slice_append_right lenA t1_def t2_def slice_Cons slice_prefix)
  have l3: "getitem (A @ t1) (0 + 10 + length (name_bytes r) + length (code_bytes r))
              = Inr (of_nat (length (path_bytes r)))"
    by (simp add: getitem_append lenA t1_def t2_def t3_def getitem_Cons)
  have s3: "slice (A @ t1) (0 + 11 + length (name_bytes r) + length (code_bytes r))
              (0 + 11 + length (name_bytes r) + length (code_bytes r) + length (path_bytes r))
              = path_bytes r"
    by (simp add: slice_append_right lenA t1_def t2_def t3_def slice_Cons slice_prefix)
  show ?thesis
    unfolding e parse_record_alt
    by (simp only: l1 ebind_Inr len s1 dec l2 s2 l3 s3 dd)
qed

subsection \<open>Records in a row\<close>

lemma set_anchors: "set (anchors buf) = {s. is_anchor buf s}"
  by (auto simp: anchors_def is_anchor_def)

lemma length_encode_record_ge: "4 \<le> length (encode_record r)"
  by (simp add: encode_record_def)

lemma laid_out_all2: "laid_out buf lo ss rs \<Longrightarrow> list_all2 (record_at buf) ss rs"
  by (induction buf lo ss rs rule: laid_out.induct) auto

lemma laid_out_ge: "laid_out buf lo ss rs \<Longrightarrow> s \<in> set ss \<Longrightarrow> lo \<le> s"
  by (induction buf lo ss rs rule: laid_out.induct) force+

lemma laid_out_spaced: "laid_out buf lo ss rs \<Longrightarrow> sorted_wrt (\<lambda>a b. a + 4 \<le> b) ss"
proof (induction buf lo ss rs rule: laid_out.induct)
  case (2 buf lo s ss r rs)
  have "s + 4 \<le> q" if "q \<in> set ss" for q
    using laid_out_ge[of buf "s + length (encode_record r)" ss rs q] that 2(2)
      length_encode_record_ge[of r] by simp
  then show ?case using 2 by simp
qed simp_all

lemma spaced_lt:
  "sorted_wrt (\<lambda>a b. a + 4 \<le> b) xs \<Longrightarrow> a \<in> set xs \<Longrightarrow> b \<in> set xs \<Longrightarrow> (a::nat) < b
   \<Longrightarrow> a + 4 \<le> b"
  by (induction xs) auto

lemma spaced_sorted_distinct:
  "sorted_wrt (\<lambda>a b. a + 4 \<le> b) xs \<Longrightarrow> sorted xs \<and> distinct (xs :: nat list)"
  by (induction xs) auto

lemma finditer_iff:
  "s \<in> set (finditer buf) \<longleftrightarrow>
     is_anchor buf s \<and> (\<forall>q \<in> set (finditer buf). q < s \<longrightarrow> q + 4 \<le> s)"
  using finditer_from_iff[of s 0 buf] by (simp add: finditer_def)

lemma finditer_anchor_delimited:
  assumes "anchor_delimited buf starts rs"
  shows "finditer buf = starts"
proof -
  have sp: "sorted_wrt (\<lambda>a b. a + 4 \<le> b) starts"
    using assms laid_out_spaced by (auto simp: anchor_delimited_def)
  have st: "set starts = {s. is_anchor buf s}"
    using assms set_anchors[of buf] by (auto simp: anchor_delimited_def)
  have sub: "set (finditer buf) \<subseteq> set starts"
    using finditer_iff[of _ buf] st by blast
  have "s \<in> set (finditer buf)" if "s \<in> set starts" for s
  proof -
    have "q + 4 \<le> s" if "q \<in> set (finditer buf)" "q < s" for q
      using spaced_lt[OF sp _ \<open>s \<in> set starts\<close> that(2)] sub that(1) by blast
    moreover have "is_anchor buf s" using that st by simp
    ultimately show ?thesis using finditer_iff[of s buf] by blast
  qed
  then have "set (finditer buf) = set starts" using sub by blast
  moreover have "sorted (finditer buf) \<and> distinct (finditer buf)"
    using finditer_from_spaced[of 0 buf] spaced_sorted_distinct by (simp add: finditer_def)
  moreover have "sorted starts \<and> distinct starts"
    using sp spaced_sorted_distinct by blast
  ultimately show ?thesis using sorted_distinct_set_unique by blast
qed

lemma record_at_parse:
  assumes "record_at buf s r" "well_formed r"
  shows "parse_record buf s = Inr (decoded r)"
proof -
  have "drop s buf = encode_record r @ drop (length (encode_record r)) (drop s buf)"
    using assms(1) append_take_drop_id[of "length (encode_record r)" "drop s buf"]
    by (simp add: record_at_def)
  then show ?thesis
    using parse_record_drop[of buf s] parse_record_encode[OF assms(2)] by metis
qed

subsection \<open>The loop over the matches\<close>

lemma products_loop_Inr:
  "list_all2 (\<lambda>s r. parse_record buf s = Inr r) ss ps \<Longrightarrow>
   products_loop buf m ss = Inr (m ++ map_of (rev (map (\<lambda>r. (gameid r, r)) ps)))"
proof (induction ss arbitrary: m ps)
  case Nil
  then show ?case by simp
next
  case (Cons s ss)
  then obtain r ps' where ps: "ps = r # ps'" "parse_record buf s = Inr r"
      "list_all2 (\<lambda>s r. parse_record buf s = Inr r) ss ps'"
    by (auto simp: list_all2_Cons1)
  have "products_loop buf m (s # ss) = products_loop buf (m(gameid r \<mapsto> r)) ss"
    using ps(2) by simp
  also have "\<dots> = Inr (m(gameid r \<mapsto> r) ++ map_of (rev (map (\<lambda>r. (gameid r, r)) ps')))"
    by (rule Cons.IH[OF ps(3)])
  also have "m(gameid r \<mapsto> r) ++ map_of (rev (map (\<lambda>r. (gameid r, r)) ps'))
       = m ++ map_of (rev (map (\<lambda>r. (gameid r, r)) ps))"
    unfolding ps(1) by (simp add: map_add_assoc[symmetric] map_add_upd)
  finally show ?case .
qed

lemma products_loop_Inr_D:
  "products_loop buf m ss = Inr m' \<Longrightarrow>
   \<exists>ps. list_all2 (\<lambda>s r. parse_record buf s = Inr r) ss ps"
proof (induction ss arbitrary: m)
  case Nil
  then show ?case by simp
next
  case (Cons s ss)
  then show ?case
    by (auto simp: list_all2_Cons1 split: sum.splits)
qed

lemma products_loop_Inl:
  "s \<in> set ss \<Longrightarrow> parse_record buf s = Inl e \<Longrightarrow> \<exists>e'. products_loop buf m ss = Inl e'"
proof (induction ss arbitrary: m)
  case Nil
  then show ?case by simp
next
  case (Cons a ss)
  then show ?case by (cases "parse_record buf a") auto
qed

lemma products_loop_Inl_D:
  "products_loop buf m ss = Inl e \<Longrightarrow> \<exists>s \<in> set ss. parse_record buf s = Inl e"
proof (induction ss arbitrary: m)
  case Nil
  then show ?case by simp
next
  case (Cons a ss)
  then show ?case by (cases "parse_record buf a") auto
qed

lemma products_loop_stores:
  assumes "products_loop buf m0 ss = Inr m" "s \<in> set ss"
  shows "\<exists>r. parse_record buf s = Inr r \<and> m (gameid r) \<noteq> None"
proof -
  obtain ps where ps: "list_all2 (\<lambda>s r. parse_record buf s = Inr r) ss ps"
    using products_loop_Inr_D[OF assms(1)] by blast
  then have "\<exists>r \<in> set ps. parse_record buf s = Inr r"
    using assms(2) by (induction rule: list_all2_induct) auto
  then obtain r where r: "r \<in> set ps" "parse_record buf s = Inr r"
    by blast
  have "m = m0 ++ map_of (rev (map (\<lambda>r. (gameid r, r)) ps))"
    using products_loop_Inr[OF ps, of m0] assms(1) by simp
  moreover have "gameid r \<in> dom (map_of (rev (map (\<lambda>r. (gameid r, r)) ps)))"
    using r(1) by (simp add: dom_map_of_conv_image_fst image_image)
  ultimately show ?thesis using r(2) by auto
qed

subsection \<open>Round trip\<close>

lemma products_parse_open_rb: "fst (products_parse (open_rb buf)) = products_scan buf"
  by (simp add: products_parse_def file_read_def open_rb_def)

lemma decoded_fields:
  "well_formed r \<Longrightarrow>
     decode (name_bytes r) = Inr (gameid (decoded r))
     \<and> decode (path_bytes r) = Inr (path (decoded r))
     \<and> decode (code_bytes r) = Inr (code (decoded r))"
  by (auto simp: well_formed_def decode_def decoded_def)

lemma products_scan_anchor_delimited:
  assumes "anchor_delimited buf starts rs" and "\<forall>r \<in> set rs. well_formed r"
  shows "products_scan buf = Inr (map_of (rev (map (\<lambda>e. (gameid e, e)) (map decoded rs))))"
proof -
  have "list_all2 (record_at buf) starts rs"
    using assms(1) laid_out_all2 by (auto simp: anchor_delimited_def)
  then have "list_all2 (\<lambda>s e. parse_record buf s = Inr e) starts (map decoded rs)"
    unfolding list_all2_map2
    by (rule list.rel_mono_strong) (use assms(2) record_at_parse in blast)
  then show ?thesis
    using products_loop_Inr[of buf starts "map decoded rs" Map.empty]
      finditer_anchor_delimited[OF assms(1)]
    by (simp add: products_scan_def)
qed

lemma scan_roundtrip:
  assumes "products_scan buf = Inr (map_of (rev (map (\<lambda>e. (gameid e, e)) (map decoded rs))))"
    and "\<forall>r \<in> set rs. well_formed r"
    and "distinct (map (\<lambda>r. gameid (decoded r)) rs)"
  shows "\<exists>m. fst (products_parse (open_rb buf)) = Inr m
           \<and> card (dom m) = length rs
           \<and> dom m = (\<lambda>r. gameid (decoded r)) ` set rs
           \<and> (\<forall>r \<in> set rs. \<exists>e. m (gameid e) = Some e
                  \<and> decode (name_bytes r) = Inr (gameid e)
                  \<and> decode (path_bytes r) = Inr (path e)
                  \<and> decode (code_bytes r) = Inr (code e))"
proof -
  let ?kvs = "rev (map (\<lambda>e. (gameid e, e)) (map decoded rs))"
  let ?m = "map_of ?kvs"
  have scan: "fst (products_parse (open_rb buf)) = Inr ?m"
    using assms(1) by (simp add: products_parse_open_rb)
  have keys: "map fst ?kvs = rev (map (\<lambda>r. gameid (decoded r)) rs)"
    by (simp add: rev_map comp_def)
  have dist: "distinct (map fst ?kvs)"
    unfolding keys using assms(3) by simp
  have dom: "dom ?m = (\<lambda>r. gameid (decoded r)) ` set rs"
    by (simp add: dom_map_of_conv_image_fst image_image)
  have card: "card (dom ?m) = length rs"
    using distinct_card[OF assms(3)] unfolding dom by simp
  have look: "\<exists>e. ?m (gameid e) = Some e
                  \<and> decode (name_bytes r) = Inr (gameid e)
                  \<and> decode (path_bytes r) = Inr (path e)
                  \<and> decode (code_bytes r) = Inr (code e)" if "r \<in> set rs" for r
  proof -
    have "(gameid (decoded r), decoded r) \<in> set ?kvs" using that by auto
    then have "?m (gameid (decoded r)) = Some (decoded r)"
      using dist by (simp only: map_of_eq_Some_iff)
    then show ?thesis using decoded_fields[of r] assms(2) that by blast
  qed
  show ?thesis using scan card dom look by blast
qed

text \<open>
  Claim C1. A buffer that holds \<open>N\<close> well-formed records, delimited by the anchor (the
  pattern occurs at the start of each record and nowhere else), with pairwise different
  gameids: \<open>products_parse\<close> returns a mapping with exactly \<open>N\<close> entries, its keys are
  the gameids, and the entry of each record carries the decoded name, path and code bytes
  of that record unchanged.
\<close>

theorem products_parse_roundtrip:
  assumes "anchor_delimited buf starts rs"
    and "\<forall>r \<in> set rs. well_formed r"
    and "distinct (map (\<lambda>r. gameid (decoded r)) rs)"
  shows "\<exists>m. fst (products_parse (open_rb buf)) = Inr m
           \<and> card (dom m) = length rs
           \<and> dom m = (\<lambda>r. gameid (decoded r)) ` set rs
           \<and> (\<forall>r \<in> set rs. \<exists>e. m (gameid e) = Some e
                  \<and> decode (name_bytes r) = Inr (gameid e)
                  \<and> decode (path_bytes r) = Inr (path e)
                  \<and> decode (code_bytes r) = Inr (code e))"
  using scan_roundtrip[OF products_scan_anchor_delimited[OF assms(1,2)] assms(2,3)] .

lemma ex_anchors: "anchors example_db = [0, 20]"
  by (simp add: anchors_def example_db_def is_anchor_def)

lemma ex_laid: "laid_out example_db 0 [0, 20] [example_rec1, example_rec2]"
  by (simp add: example_db_def example_rec1_def example_rec2_def record_at_def encode_record_def)

lemma ex_wf: "well_formed example_rec1" "well_formed example_rec2"
  by (simp_all add: example_rec1_def example_rec2_def well_formed_def)

lemma ex_dec:
  "decoded example_rec1
     = \<lparr>gameid = str_of ''bna'', path = str_of ''C:/B'', code = str_of ''BN''\<rparr>"
  "decoded example_rec2 = \<lparr>gameid = str_of ''pro'', path = str_of ''C:/O'', code = str_of ''Pro''\<rparr>"
  by (simp_all add: example_rec1_def example_rec2_def decoded_def str_of_def)

theorem products_parse_roundtrip_witness:
  "anchor_delimited example_db [0, 20] [example_rec1, example_rec2]
   \<and> well_formed example_rec1 \<and> well_formed example_rec2
   \<and> gameid (decoded example_rec1) \<noteq> gameid (decoded example_rec2)
   \<and> (\<exists>m. fst (products_parse (open_rb example_db)) = Inr m \<and> card (dom m) = 2
        \<and> m (str_of ''bna'')
            = Some \<lparr>gameid = str_of ''bna'', path = str_of ''C:/B'', code = str_of ''BN''\<rparr>
        \<and> m (str_of ''pro'')
            = Some \<lparr>gameid = str_of ''pro'', path = str_of ''C:/O'', code = str_of ''Pro''\<rparr>)"
proof -
  have ad: "anchor_delimited example_db [0, 20] [example_rec1, example_rec2]"
    unfolding anchor_delimited_def by (intro conjI ex_laid ex_anchors)
  have wf: "\<forall>r \<in> set [example_rec1, example_rec2]. well_formed r"
    by (simp add: ex_wf)
  have ne: "gameid (decoded example_rec1) \<noteq> gameid (decoded example_rec2)"
    by (simp add: ex_dec str_of_def)
  then have di: "distinct (map (\<lambda>r. gameid (decoded r)) [example_rec1, example_rec2])"
    by simp
  from products_parse_roundtrip[OF ad wf di]
  obtain m where m: "fst (products_parse (open_rb example_db)) = Inr m"
      "card (dom m) = length [example_rec1, example_rec2]"
      "\<forall>r \<in> set [example_rec1, example_rec2]. \<exists>e. m (gameid e) = Some e
                  \<and> decode (name_bytes r) = Inr (gameid e)
                  \<and> decode (path_bytes r) = Inr (path e)
                  \<and> decode (code_bytes r) = Inr (code e)"
    by blast
  have d1: "decode (name_bytes example_rec1) = Inr (str_of ''bna'')"
    "decode (path_bytes example_rec1) = Inr (str_of ''C:/B'')"
    "decode (code_bytes example_rec1) = Inr (str_of ''BN'')"
    by (simp_all add: example_rec1_def decode_def str_of_def)
  have d2: "decode (name_bytes example_rec2) = Inr (str_of ''pro'')"
    "decode (path_bytes example_rec2) = Inr (str_of ''C:/O'')"
    "decode (code_bytes example_rec2) = Inr (str_of ''Pro'')"
    by (simp_all add: example_rec2_def decode_def str_of_def)
  obtain e1 where e1: "m (gameid e1) = Some e1" "gameid e1 = str_of ''bna''"
      "path e1 = str_of ''C:/B''" "code e1 = str_of ''BN''"
    using m(3) d1 by auto
  obtain e2 where e2: "m (gameid e2) = Some e2" "gameid e2 = str_of ''pro''"
      "path e2 = str_of ''C:/O''" "code e2 = str_of ''Pro''"
    using m(3) d2 by auto
  have "e1 = \<lparr>gameid = str_of ''bna'', path = str_of ''C:/B'', code = str_of ''BN''\<rparr>"
    using e1 by (cases e1) simp
  moreover have "e2 = \<lparr>gameid = str_of ''pro'', path = str_of ''C:/O'', code = str_of ''Pro''\<rparr>"
    using e2 by (cases e2) simp
  ultimately show ?thesis using ad ex_wf ne m(1,2) e1(1,2) e2(1,2) by auto
qed

subsection \<open>Records without line feeds\<close>

lemma finditer_from_short: "length xs < 4 \<Longrightarrow> finditer_from p xs = []"
  by (induction p xs rule: finditer_from.induct) simp_all

lemma finditer_from_skip:
  assumes "x \<noteq> 0x0A"
  shows "finditer_from p (x # xs) = finditer_from (Suc p) xs"
proof (cases "length xs < 3")
  case True
  then show ?thesis by (simp add: finditer_from_short)
next
  case False
  then obtain b c d rest where "xs = b # c # d # rest"
    by (metis length_Cons less_Suc_eq_0_disj list.exhaust list.size(3) numeral_3_eq_3 not_less_eq)
  then show ?thesis using assms by simp
qed

lemma finditer_from_skip_list:
  "0x0A \<notin> set xs \<Longrightarrow> finditer_from p (xs @ ys) = finditer_from (p + length xs) ys"
  by (induction xs arbitrary: p) (simp_all add: finditer_from_skip)

lemma finditer_from_before_field:
  assumes "3 \<le> length f" "0x0A \<notin> set f"
  shows "finditer_from p (x # f @ ys) = finditer_from (p + 1 + length f) ys"
proof -
  obtain b c d f' where f: "f = b # c # d # f'"
    using assms(1) by (metis One_nat_def Suc_le_length_iff numeral_3_eq_3 one_add_one Suc_1)
  then have "d \<noteq> 0x0A" using assms(2) by auto
  then have "finditer_from p (x # f @ ys) = finditer_from (p + 1) (f @ ys)"
    unfolding f by simp
  then show ?thesis using finditer_from_skip_list[OF assms(2), of "p + 1" ys] by simp
qed

lemma finditer_from_field:
  assumes "length f < 256" "0x0A \<notin> set f"
  shows "finditer_from p ((of_nat (length f) :: byte) # f @ ys)
           = finditer_from (p + 1 + length f) ys"
proof (cases "length f = 10")
  case True
  then show ?thesis using finditer_from_before_field[OF _ assms(2)] by simp
next
  case False
  have "unat (of_nat (length f) :: byte) = length f"
    using assms(1) by (rule unat_of_nat_byte)
  then have "(of_nat (length f) :: byte) \<noteq> 0x0A" using False by auto
  then show ?thesis
    using finditer_from_skip_list[OF assms(2), of "Suc p" ys] by (simp add: finditer_from_skip)
qed

lemma finditer_from_record:
  assumes "well_formed r" "lf_free r"
  shows "finditer_from p (encode_record r @ rest)
           = p # finditer_from (p + length (encode_record r)) rest"
proof -
  obtain a b c where sk: "skip3 r = [a, b, c]"
    using assms(1) by (auto simp: well_formed_def length_Suc_conv numeral_3_eq_3)
  have nl: "a \<noteq> 0x0A" "b \<noteq> 0x0A" "c \<noteq> 0x0A" "skip1 r \<noteq> 0x0A"
    using assms(2) sk by (auto simp: lf_free_def)
  have w: "wild1 r \<noteq> 0x0A" "wild2 r \<noteq> 0x0A"
    using assms(1) by (auto simp: well_formed_def)
  have len: "length (name_bytes r) < 256" "length (code_bytes r) < 256"
      "length (path_bytes r) < 256"
    using assms(1) by (auto simp: well_formed_def)
  have fr: "0x0A \<notin> set (name_bytes r)" "0x0A \<notin> set (code_bytes r)" "0x0A \<notin> set (path_bytes r)"
    using assms(2) by (auto simp: lf_free_def)
  define t3 where "t3 = of_nat (length (path_bytes r)) # path_bytes r @ rest"
  define t2 where "t2 = of_nat (length (code_bytes r)) # code_bytes r @ a # b # c # t3"
  define t1 where "t1 = of_nat (length (name_bytes r)) # name_bytes r @ skip1 r # t2"
  have e: "encode_record r @ rest = 0x0A # wild1 r # wild2 r # 0x0A # t1"
    by (simp add: encode_record_def t1_def t2_def t3_def sk)
  have le: "length (encode_record r)
      = 11 + length (name_bytes r) + length (code_bytes r) + length (path_bytes r)"
    by (simp add: encode_record_def sk)
  have "finditer_from p (encode_record r @ rest) = p # finditer_from (p + 4) t1"
    unfolding e using w by simp
  also have "finditer_from (p + 4) t1 = finditer_from (p + 5 + length (name_bytes r)) (skip1 r # t2)"
    unfolding t1_def using finditer_from_field[OF len(1) fr(1), of "p + 4" "skip1 r # t2"]
    by (simp add: ac_simps)
  also have "\<dots> = finditer_from (p + 6 + length (name_bytes r)) t2"
    using nl(4) by (simp add: finditer_from_skip ac_simps)
  also have "\<dots> = finditer_from (p + 7 + length (name_bytes r) + length (code_bytes r))
                      (a # b # c # t3)"
    unfolding t2_def
    using finditer_from_field[OF len(2) fr(2), of "p + 6 + length (name_bytes r)"
        "a # b # c # t3"]
    by (simp add: ac_simps)
  also have "\<dots> = finditer_from (p + 10 + length (name_bytes r) + length (code_bytes r)) t3"
    using nl(1-3) by (simp add: finditer_from_skip ac_simps)
  also have "\<dots> = finditer_from (p + length (encode_record r)) rest"
    unfolding t3_def le
    using finditer_from_field[OF len(3) fr(3),
        of "p + 10 + length (name_bytes r) + length (code_bytes r)" rest]
    by (simp add: ac_simps)
  finally show ?thesis .
qed

lemma finditer_from_records:
  "\<forall>r \<in> set rs. well_formed r \<and> lf_free r \<Longrightarrow>
   finditer_from p (concat (map encode_record rs)) = record_starts p rs"
proof (induction rs arbitrary: p)
  case Nil
  then show ?case by simp
next
  case (Cons r rs)
  then show ?case by (simp add: finditer_from_record)
qed

lemma record_at_prefix: "record_at (pre @ encode_record r @ rest) (length pre) r"
  by (simp add: record_at_def)

lemma records_at_starts:
  "list_all2 (record_at (pre @ concat (map encode_record rs))) (record_starts (length pre) rs) rs"
proof (induction rs arbitrary: pre)
  case Nil
  then show ?case by simp
next
  case (Cons r rs)
  have "list_all2 (record_at ((pre @ encode_record r) @ concat (map encode_record rs)))
          (record_starts (length (pre @ encode_record r)) rs) rs"
    by (rule Cons.IH)
  then show ?case using record_at_prefix[of pre r "concat (map encode_record rs)"] by simp
qed

lemma products_scan_records:
  assumes "\<forall>r \<in> set rs. well_formed r \<and> lf_free r"
  shows "products_scan (concat (map encode_record rs))
           = Inr (map_of (rev (map (\<lambda>e. (gameid e, e)) (map decoded rs))))"
proof -
  let ?buf = "concat (map encode_record rs)"
  have "list_all2 (record_at ?buf) (record_starts 0 rs) rs"
    using records_at_starts[of "[]" rs] by simp
  then have "list_all2 (\<lambda>s e. parse_record ?buf s = Inr e) (record_starts 0 rs) (map decoded rs)"
    unfolding list_all2_map2
    by (rule list.rel_mono_strong) (use assms record_at_parse in blast)
  then show ?thesis
    using products_loop_Inr[of ?buf "record_starts 0 rs" "map decoded rs" Map.empty]
      finditer_from_records[OF assms, of 0]
    by (simp add: products_scan_def finditer_def)
qed

text \<open>
  A sufficient condition in terms of the bytes alone: when no field and no stepped-over
  byte of any record is a line feed, the matches in the concatenated records are the record
  starts, and the scan returns one entry per record with its fields decoded unchanged.
\<close>

theorem products_parse_roundtrip_lf_free:
  assumes "\<forall>r \<in> set rs. well_formed r \<and> lf_free r"
    and "distinct (map (\<lambda>r. gameid (decoded r)) rs)"
  shows "finditer (concat (map encode_record rs)) = record_starts 0 rs
         \<and> (\<exists>m. fst (products_parse (open_rb (concat (map encode_record rs)))) = Inr m
              \<and> card (dom m) = length rs
              \<and> dom m = (\<lambda>r. gameid (decoded r)) ` set rs
              \<and> (\<forall>r \<in> set rs. \<exists>e. m (gameid e) = Some e
                     \<and> decode (name_bytes r) = Inr (gameid e)
                     \<and> decode (path_bytes r) = Inr (path e)
                     \<and> decode (code_bytes r) = Inr (code e)))"
proof -
  have wf: "\<forall>r \<in> set rs. well_formed r" using assms(1) by blast
  show ?thesis
    using finditer_from_records[OF assms(1), of 0]
      scan_roundtrip[OF products_scan_records[OF assms(1)] wf assms(2)]
    by (simp add: finditer_def)
qed

lemma ex_lf_free: "lf_free example_rec1" "lf_free example_rec2"
  by (simp_all add: example_rec1_def example_rec2_def lf_free_def)

lemma ex_concat: "concat (map encode_record [example_rec1, example_rec2]) = example_db"
  by (simp add: example_rec1_def example_rec2_def encode_record_def example_db_def)

theorem products_parse_roundtrip_lf_free_witness:
  "well_formed example_rec1 \<and> lf_free example_rec1
   \<and> well_formed example_rec2 \<and> lf_free example_rec2
   \<and> gameid (decoded example_rec1) \<noteq> gameid (decoded example_rec2)
   \<and> finditer example_db = [0, 20]
   \<and> (\<exists>m. fst (products_parse (open_rb example_db)) = Inr m \<and> card (dom m) = 2
        \<and> dom m = {str_of ''bna'', str_of ''pro''})"
proof -
  have a: "\<forall>r \<in> set [example_rec1, example_rec2]. well_formed r \<and> lf_free r"
    by (simp add: ex_wf ex_lf_free)
  have ne: "gameid (decoded example_rec1) \<noteq> gameid (decoded example_rec2)"
    by (simp add: ex_dec str_of_def)
  then have di: "distinct (map (\<lambda>r. gameid (decoded r)) [example_rec1, example_rec2])"
    by simp
  have st: "record_starts 0 [example_rec1, example_rec2] = [0, 20]"
    by (simp add: example_rec1_def encode_record_def)
  note t = products_parse_roundtrip_lf_free[OF a di, unfolded ex_concat st]
  then obtain m where m: "fst (products_parse (open_rb example_db)) = Inr m"
      "card (dom m) = length [example_rec1, example_rec2]"
      "dom m = (\<lambda>r. gameid (decoded r)) ` set [example_rec1, example_rec2]"
    by blast
  have "dom m = {str_of ''bna'', str_of ''pro''}"
    unfolding m(3) by (simp add: ex_dec)
  then show ?thesis using t m(1,2) ne ex_wf ex_lf_free by auto
qed

subsection \<open>Truncated buffers\<close>

lemma parse_record_error_kinds:
  "parse_record buf s = Inl e \<Longrightarrow> e = IndexError \<or> e = UnicodeDecodeError"
  unfolding parse_record_alt
  by (auto simp: ebind_def getitem_def decode_def split: sum.splits if_splits option.splits)

lemma parse_record_missing:
  "length_byte_missing buf s \<Longrightarrow> \<exists>e. parse_record buf s = Inl e"
  unfolding parse_record_alt
  by (auto simp: ebind_def getitem_def length_byte_missing_def len1_at_def len2_at_def
      split: sum.splits)

lemma utf8_decode_ascii: "\<forall>b \<in> set bs. b < 0x80 \<Longrightarrow> utf8_decode bs \<noteq> None"
  by (induction bs) auto

lemma decode_ascii: "\<forall>b \<in> set buf. b < 0x80 \<Longrightarrow> \<exists>t. decode (slice buf i j) = Inr t"
proof -
  assume a: "\<forall>b \<in> set buf. b < 0x80"
  have "set (slice buf i j) \<subseteq> set buf"
    unfolding slice_def by (meson set_take_subset set_drop_subset subset_trans)
  then have "\<forall>b \<in> set (slice buf i j). b < 0x80" using a by blast
  then show ?thesis using utf8_decode_ascii[of "slice buf i j"] by (auto simp: decode_def)
qed

lemma parse_record_ascii:
  assumes "\<forall>b \<in> set buf. b < 0x80" "parse_record buf s = Inl e"
  shows "e = IndexError"
proof -
  have d: "decode (slice buf i j) \<noteq> Inl x" for i j x
    using decode_ascii[OF assms(1), of i j] by auto
  show ?thesis
    using assms(2) unfolding parse_record_alt
    by (auto simp: ebind_def getitem_def d split: sum.splits if_splits)
qed

lemma parse_record_present:
  assumes "\<not> length_byte_missing buf s"
  shows "parse_record buf s =
           ebind (decode (name_field buf s)) (\<lambda>nm.
           ebind (decode (code_field buf s)) (\<lambda>cd.
           ebind (decode (path_field buf s)) (\<lambda>pth.
           Inr \<lparr>gameid = nm, path = pth, code = cd\<rparr>)))"
proof -
  have a: "s + 4 < length buf" "s + 6 + len1_at buf s < length buf"
      "s + 10 + len1_at buf s + len2_at buf s < length buf"
    using assms by (auto simp: length_byte_missing_def)
  have g1: "getitem buf (s + 4) = Inr (buf ! (s + 4))"
    using a(1) by (simp add: getitem_def)
  have u1: "unat (buf ! (s + 4)) = len1_at buf s" by (simp add: len1_at_def)
  have g2: "getitem buf (s + 6 + len1_at buf s) = Inr (buf ! (s + 6 + len1_at buf s))"
    using a(2) by (simp add: getitem_def)
  have u2: "unat (buf ! (s + 6 + len1_at buf s)) = len2_at buf s" by (simp add: len2_at_def)
  have g3: "getitem buf (s + 10 + len1_at buf s + len2_at buf s)
              = Inr (buf ! (s + 10 + len1_at buf s + len2_at buf s))"
    using a(3) by (simp add: getitem_def)
  have u3: "unat (buf ! (s + 10 + len1_at buf s + len2_at buf s)) = len3_at buf s"
    by (simp add: len3_at_def)
  show ?thesis
    unfolding parse_record_alt name_field_def code_field_def path_field_def
    by (simp only: g1 ebind_Inr u1 g2 u2 g3 u3)
qed

lemma parse_record_Inr_iff:
  "(\<exists>r. parse_record buf s = Inr r) \<longleftrightarrow> \<not> length_byte_missing buf s \<and> fields_decode buf s"
proof
  assume "\<exists>r. parse_record buf s = Inr r"
  then obtain r where r: "parse_record buf s = Inr r" by blast
  then have m: "\<not> length_byte_missing buf s"
    using parse_record_missing[of buf s] by auto
  show "\<not> length_byte_missing buf s \<and> fields_decode buf s"
    using r m unfolding parse_record_present[OF m]
    by (auto simp: ebind_def decode_def fields_decode_def split: sum.splits option.splits)
next
  assume a: "\<not> length_byte_missing buf s \<and> fields_decode buf s"
  then show "\<exists>r. parse_record buf s = Inr r"
    unfolding parse_record_present[OF conjunct1[OF a]]
    by (auto simp: ebind_def decode_def fields_decode_def split: sum.splits option.splits)
qed

lemma parse_record_fields:
  assumes "parse_record buf s = Inr r"
  shows "decode (name_field buf s) = Inr (gameid r) \<and> decode (code_field buf s) = Inr (code r)
         \<and> decode (path_field buf s) = Inr (path r)"
proof -
  have m: "\<not> length_byte_missing buf s"
    using assms parse_record_missing[of buf s] by auto
  show ?thesis
    using assms unfolding parse_record_present[OF m]
    by (auto simp: ebind_def split: sum.splits)
qed

lemma path_field_clipped:
  assumes "\<not> length_byte_missing buf s" "truncated_mid_field buf s"
  shows "length (path_field buf s) = length buf - (s + 11 + len1_at buf s + len2_at buf s)
         \<and> length (path_field buf s) < len3_at buf s"
  using assms
  by (auto simp: path_field_def slice_def truncated_mid_field_def consumed_end_def
      length_byte_missing_def)

lemma products_loop_total:
  "\<forall>s \<in> set ss. \<exists>r. parse_record buf s = Inr r \<Longrightarrow> \<exists>m'. products_loop buf m ss = Inr m'"
proof (induction ss arbitrary: m)
  case Nil
  then show ?case by simp
next
  case (Cons a ss)
  then obtain r where r: "parse_record buf a = Inr r" by auto
  have "\<exists>m'. products_loop buf (m(gameid r \<mapsto> r)) ss = Inr m'"
    using Cons.IH Cons.prems by simp
  then show ?case using r by simp
qed

lemma products_scan_Inr_iff:
  "(\<exists>m. products_scan buf = Inr m)
     \<longleftrightarrow> (\<forall>s \<in> set (finditer buf). \<not> length_byte_missing buf s \<and> fields_decode buf s)"
proof
  assume "\<exists>m. products_scan buf = Inr m"
  then obtain m where "products_loop buf Map.empty (finditer buf) = Inr m"
    by (auto simp: products_scan_def)
  then have "\<forall>s \<in> set (finditer buf). \<exists>r. parse_record buf s = Inr r"
    using products_loop_stores by blast
  then show "\<forall>s \<in> set (finditer buf). \<not> length_byte_missing buf s \<and> fields_decode buf s"
    using parse_record_Inr_iff by blast
next
  assume "\<forall>s \<in> set (finditer buf). \<not> length_byte_missing buf s \<and> fields_decode buf s"
  then have "\<forall>s \<in> set (finditer buf). \<exists>r. parse_record buf s = Inr r"
    using parse_record_Inr_iff by blast
  then show "\<exists>m. products_scan buf = Inr m"
    using products_loop_total by (simp add: products_scan_def)
qed

lemma products_scan_error_kinds:
  "products_scan buf = Inl e \<Longrightarrow> e = IndexError \<or> e = UnicodeDecodeError"
  using products_loop_Inl_D[of buf Map.empty "finditer buf" e] parse_record_error_kinds
  by (auto simp: products_scan_def)

lemma products_scan_missing:
  assumes "s \<in> set (finditer buf)" and "length_byte_missing buf s"
  shows "(products_scan buf = Inl IndexError \<or> products_scan buf = Inl UnicodeDecodeError)
         \<and> ((\<forall>b \<in> set buf. b < 0x80) \<longrightarrow> products_scan buf = Inl IndexError)"
proof -
  obtain e where "parse_record buf s = Inl e"
    using parse_record_missing[OF assms(2)] by blast
  then obtain e' where e': "products_scan buf = Inl e'"
    using products_loop_Inl[OF assms(1), of buf e Map.empty] by (auto simp: products_scan_def)
  then obtain s' where s': "parse_record buf s' = Inl e'"
    using products_loop_Inl_D[of buf Map.empty "finditer buf" e']
    by (auto simp: products_scan_def)
  have "e' = IndexError \<or> e' = UnicodeDecodeError"
    using parse_record_error_kinds[OF s'] .
  moreover have "e' = IndexError" if "\<forall>b \<in> set buf. b < 0x80"
    using parse_record_ascii[OF that s'] .
  ultimately show ?thesis using e' by auto
qed

lemma products_scan_stored:
  assumes "products_scan buf = Inr m" "s \<in> set (finditer buf)"
  shows "(\<exists>r. parse_record buf s = Inr r \<and> m (gameid r) \<noteq> None
            \<and> decode (name_field buf s) = Inr (gameid r)
            \<and> decode (code_field buf s) = Inr (code r)
            \<and> decode (path_field buf s) = Inr (path r))
         \<and> (truncated_mid_field buf s \<longrightarrow>
              length (path_field buf s) = length buf - (s + 11 + len1_at buf s + len2_at buf s)
              \<and> length (path_field buf s) < len3_at buf s)"
proof -
  obtain r where r: "parse_record buf s = Inr r" "m (gameid r) \<noteq> None"
    using products_loop_stores[of buf Map.empty "finditer buf" m s] assms
    by (auto simp: products_scan_def)
  have m: "\<not> length_byte_missing buf s"
    using r(1) parse_record_Inr_iff by blast
  show ?thesis
    using r parse_record_fields[OF r(1)] path_field_clipped[OF m] by blast
qed

text \<open>
  Claim C2, as amended. When one of the three length bytes of a matched record lies beyond
  the end of the buffer, \<open>products_parse\<close> raises and returns no mapping: IndexError, or
  UnicodeDecodeError when a field read before that point is not UTF-8 (IndexError on a
  buffer of ASCII bytes). It returns a mapping exactly when the length bytes of every match
  are there and every field slice, clipped to the buffer, is UTF-8; no other exception
  occurs. So a buffer that ends inside the path of a record is parsed without error when
  the bytes that are there decode: the record parsed at that match holds their decoding,
  fewer bytes than the length byte announces, and its gameid is a key of the mapping.
\<close>

theorem products_parse_truncation:
  "(s \<in> set (finditer buf) \<and> length_byte_missing buf s \<longrightarrow>
      (fst (products_parse (open_rb buf)) = Inl IndexError
         \<or> fst (products_parse (open_rb buf)) = Inl UnicodeDecodeError)
      \<and> ((\<forall>b \<in> set buf. b < 0x80) \<longrightarrow> fst (products_parse (open_rb buf)) = Inl IndexError))
   \<and> ((\<exists>m. fst (products_parse (open_rb buf)) = Inr m)
        \<longleftrightarrow> (\<forall>t \<in> set (finditer buf). \<not> length_byte_missing buf t \<and> fields_decode buf t))
   \<and> (fst (products_parse (open_rb buf)) = Inl e \<longrightarrow> e = IndexError \<or> e = UnicodeDecodeError)
   \<and> (fst (products_parse (open_rb buf)) = Inr m \<and> s \<in> set (finditer buf) \<longrightarrow>
        (\<exists>r. parse_record buf s = Inr r \<and> m (gameid r) \<noteq> None
            \<and> decode (name_field buf s) = Inr (gameid r)
            \<and> decode (code_field buf s) = Inr (code r)
            \<and> decode (path_field buf s) = Inr (path r))
        \<and> (truncated_mid_field buf s \<longrightarrow>
              length (path_field buf s) = length buf - (s + 11 + len1_at buf s + len2_at buf s)
              \<and> length (path_field buf s) < len3_at buf s))"
  unfolding products_parse_open_rb
  using products_scan_missing[of s buf] products_scan_Inr_iff[of buf]
    products_scan_error_kinds[of buf e] products_scan_stored[of buf m s]
  by (intro conjI impI) blast+

lemma tiny_db_facts:
  "0 \<in> set (finditer tiny_db)" "length_byte_missing tiny_db 0" "\<forall>b \<in> set tiny_db. b < 0x80"
  by (simp_all add: tiny_db_def finditer_def length_byte_missing_def len1_at_def len2_at_def)

lemma cut_db_facts:
  "finditer cut_db = [0]" "\<not> length_byte_missing cut_db 0" "truncated_mid_field cut_db 0"
  "len3_at cut_db 0 = 4" "fields_decode cut_db 0"
  by (simp_all add: cut_db_def finditer_def length_byte_missing_def truncated_mid_field_def
      consumed_end_def len1_at_def len2_at_def len3_at_def fields_decode_def name_field_def
      code_field_def path_field_def slice_def)

lemma cut_utf8_db_facts:
  "finditer cut_utf8_db = [0]" "\<not> length_byte_missing cut_utf8_db 0"
  "truncated_mid_field cut_utf8_db 0" "\<not> fields_decode cut_utf8_db 0"
  by (simp_all add: cut_utf8_db_def finditer_def length_byte_missing_def truncated_mid_field_def
      consumed_end_def len1_at_def len2_at_def len3_at_def fields_decode_def name_field_def
      code_field_def path_field_def slice_def is_cont_def)

lemma cut_utf8_db_scan: "products_scan cut_utf8_db = Inl UnicodeDecodeError"
  by (simp add: cut_utf8_db_def products_scan_def finditer_def parse_record_def getitem_def
      slice_def decode_def ebind_def is_cont_def)

theorem products_parse_truncation_witness:
  "0 \<in> set (finditer tiny_db) \<and> length_byte_missing tiny_db 0
   \<and> fst (products_parse (open_rb tiny_db)) = Inl IndexError
   \<and> finditer cut_db = [0] \<and> \<not> length_byte_missing cut_db 0 \<and> fields_decode cut_db 0
   \<and> truncated_mid_field cut_db 0
   \<and> (\<exists>m r. fst (products_parse (open_rb cut_db)) = Inr m \<and> parse_record cut_db 0 = Inr r
         \<and> m (gameid r) \<noteq> None \<and> decode (path_field cut_db 0) = Inr (path r)
         \<and> length (path_field cut_db 0) = 2 \<and> len3_at cut_db 0 = 4)
   \<and> finditer cut_utf8_db = [0] \<and> \<not> length_byte_missing cut_utf8_db 0
   \<and> truncated_mid_field cut_utf8_db 0 \<and> \<not> fields_decode cut_utf8_db 0
   \<and> fst (products_parse (open_rb cut_utf8_db)) = Inl UnicodeDecodeError"
proof -
  have a: "fst (products_parse (open_rb tiny_db)) = Inl IndexError"
    using products_parse_truncation[of 0 tiny_db] tiny_db_facts by blast
  have "\<forall>t \<in> set (finditer cut_db). \<not> length_byte_missing cut_db t \<and> fields_decode cut_db t"
    by (simp add: cut_db_facts)
  then obtain m where m: "fst (products_parse (open_rb cut_db)) = Inr m"
    using products_parse_truncation[of 0 cut_db] by blast
  have s0: "0 \<in> set (finditer cut_db)" by (simp add: cut_db_facts)
  obtain r where r: "parse_record cut_db 0 = Inr r" "m (gameid r) \<noteq> None"
      "decode (path_field cut_db 0) = Inr (path r)"
    and l: "length (path_field cut_db 0)
              = length cut_db - (0 + 11 + len1_at cut_db 0 + len2_at cut_db 0)"
    using products_parse_truncation[of 0 cut_db _ m] m s0 cut_db_facts(3) by blast
  have l2: "length (path_field cut_db 0) = 2"
    unfolding l by (simp add: cut_db_def len1_at_def len2_at_def)
  have b: "\<exists>m r. fst (products_parse (open_rb cut_db)) = Inr m \<and> parse_record cut_db 0 = Inr r
         \<and> m (gameid r) \<noteq> None \<and> decode (path_field cut_db 0) = Inr (path r)
         \<and> length (path_field cut_db 0) = 2 \<and> len3_at cut_db 0 = 4"
    using m r l2 cut_db_facts(4) by blast
  have c: "fst (products_parse (open_rb cut_utf8_db)) = Inl UnicodeDecodeError"
    by (simp add: products_parse_open_rb cut_utf8_db_scan)
  show ?thesis
    using a b c tiny_db_facts(1,2) cut_db_facts(1,2,3,5) cut_utf8_db_facts by blast
qed

lemma cut_db_scan:
  "products_scan cut_db
     = Inr [str_of ''bna'' \<mapsto> \<lparr>gameid = str_of ''bna'', path = str_of ''C:'', code = str_of ''BN''\<rparr>]"
  by (simp add: cut_db_def products_scan_def finditer_def parse_record_def getitem_def
      slice_def decode_def ebind_def str_of_def)

text \<open>
  Claim C2 as stated fails where the buffer ends inside the last field: a slice is clipped
  to the buffer without complaint. \<open>cut_db\<close> has 18 bytes, its record claims 20, and the
  scan returns the entry with the two path bytes that are there.
\<close>

theorem truncated_path_counterexample:
  "finditer cut_db = [0] \<and> truncated_mid_field cut_db 0
   \<and> consumed_end cut_db 0 = 20 \<and> length cut_db = 18
   \<and> entry_of (fst (products_parse (open_rb cut_db))) (str_of ''bna'')
       = Some \<lparr>gameid = str_of ''bna'', path = str_of ''C:'', code = str_of ''BN''\<rparr>"
proof -
  have "finditer cut_db = [0]" by (simp add: cut_db_def finditer_def)
  moreover have "consumed_end cut_db 0 = 20"
    by (simp add: cut_db_def consumed_end_def len1_at_def len2_at_def len3_at_def)
  moreover have "length cut_db = 18" by (simp add: cut_db_def)
  ultimately show ?thesis
    by (simp add: truncated_mid_field_def products_parse_open_rb cut_db_scan entry_of_def)
qed

subsection \<open>Matches inside the fields of a record\<close>

text \<open>
  Claim C3, as amended. The scan steps over the four bytes of a match and no further: an
  offset is a match exactly when the pattern occurs there and every earlier match starts
  at least four bytes before it, wherever the fields of earlier records lie. Every match
  is parsed as a record, and when the scan returns a mapping that record's gameid is a key.
\<close>

theorem anchor_scan_advance:
  "(s \<in> set (finditer buf) \<longleftrightarrow>
      is_anchor buf s \<and> (\<forall>q \<in> set (finditer buf). q < s \<longrightarrow> q + 4 \<le> s))
   \<and> (fst (products_parse (open_rb buf)) = Inr m \<longrightarrow> s \<in> set (finditer buf) \<longrightarrow>
        (\<exists>r. parse_record buf s = Inr r \<and> m (gameid r) \<noteq> None))"
  using finditer_iff[of s buf] products_loop_stores[of buf Map.empty "finditer buf" m s]
  by (simp add: products_parse_open_rb products_scan_def)

lemma nested_db_finditer: "finditer nested_db = [0, 5]"
  by (simp add: nested_db_def finditer_def)

lemma nested_db_inner:
  "parse_record nested_db 5
     = Inr \<lparr>gameid = str_of ''i'', path = str_of ''p'', code = str_of ''c''\<rparr>"
  by (simp add: nested_db_def parse_record_def getitem_def slice_def decode_def ebind_def
      str_of_def)

lemma nested_db_outer:
  "parse_record nested_db 0
     = Inr \<lparr>gameid = [10, 120, 121, 10, 1, 105, 18, 1, 99, 0, 0, 0, 1, 112],
            path = str_of ''P'', code = str_of ''C''\<rparr>"
  by (simp add: nested_db_def parse_record_def getitem_def slice_def decode_def ebind_def
      str_of_def)

lemma nested_db_entry:
  "entry_of (fst (products_parse (open_rb nested_db))) (str_of ''i'')
     = Some \<lparr>gameid = str_of ''i'', path = str_of ''p'', code = str_of ''c''\<rparr>"
  by (simp add: products_parse_open_rb products_scan_def nested_db_finditer nested_db_inner
      nested_db_outer entry_of_def)

text \<open>
  Claim C3 as stated fails on \<open>nested_db\<close>: the pattern occurs at offset 5, inside the
  name that the record at offset 0 consumes (that record ends at offset 27), and offset 5
  is a match whose record is stored under the key \<open>i\<close>.
\<close>

theorem nested_anchor_counterexample:
  "finditer nested_db = [0, 5] \<and> is_anchor nested_db 5
   \<and> 0 + 4 \<le> (5::nat) \<and> 5 < consumed_end nested_db 0
   \<and> entry_of (fst (products_parse (open_rb nested_db))) (str_of ''i'')
       = Some \<lparr>gameid = str_of ''i'', path = str_of ''p'', code = str_of ''c''\<rparr>"
proof -
  have "is_anchor nested_db 5" by (simp add: nested_db_def is_anchor_def)
  moreover have "consumed_end nested_db 0 = 27"
    by (simp add: nested_db_def consumed_end_def len1_at_def len2_at_def len3_at_def)
  ultimately show ?thesis using nested_db_finditer nested_db_entry by simp
qed

theorem anchor_scan_advance_witness:
  "is_anchor nested_db 5 \<and> 5 \<in> set (finditer nested_db)
   \<and> (\<exists>m. fst (products_parse (open_rb nested_db)) = Inr m \<and> m (str_of ''i'') \<noteq> None)"
proof -
  obtain m where m: "fst (products_parse (open_rb nested_db)) = Inr m"
    using nested_db_entry by (cases "fst (products_parse (open_rb nested_db))")
      (simp_all add: entry_of_def)
  have anc: "is_anchor nested_db 5" by (simp add: nested_db_def is_anchor_def)
  have "\<forall>q \<in> set (finditer nested_db). q < 5 \<longrightarrow> q + 4 \<le> 5"
    by (simp add: nested_db_finditer)
  then have mem: "5 \<in> set (finditer nested_db)"
    using anchor_scan_advance[of 5 nested_db m] anc by blast
  then have "\<exists>r. parse_record nested_db 5 = Inr r \<and> m (gameid r) \<noteq> None"
    using anchor_scan_advance[of 5 nested_db m] m by blast
  then have "m (str_of ''i'') \<noteq> None" by (simp add: nested_db_inner)
  then show ?thesis using anc mem m by blast
qed

subsection \<open>The root entry and repeated gameids\<close>

lemma products_loop_append:
  "products_loop buf m (xs @ ys)
     = (case products_loop buf m xs of Inl e \<Rightarrow> Inl e | Inr m' \<Rightarrow> products_loop buf m' ys)"
  by (induction xs arbitrary: m) (auto split: sum.splits)

lemma products_loop_keeps:
  assumes "products_loop buf m0 ss = Inr m"
    and "\<forall>s \<in> set ss. \<forall>r. parse_record buf s = Inr r \<longrightarrow> gameid r \<noteq> k"
  shows "m k = m0 k"
  using assms
proof (induction ss arbitrary: m0)
  case Nil
  then show ?case by simp
next
  case (Cons a ss)
  then obtain r where r: "parse_record buf a = Inr r"
      "products_loop buf (m0(gameid r \<mapsto> r)) ss = Inr m"
    by (cases "parse_record buf a") auto
  have "gameid r \<noteq> k" using Cons.prems(2) r(1) by simp
  moreover have "m k = (m0(gameid r \<mapsto> r)) k"
    using Cons.IH[OF r(2)] Cons.prems(2) by simp
  ultimately show ?case by simp
qed

lemma products_scan_last_wins:
  assumes "products_scan b = Inr m" and "finditer b = before @ s # after"
    and "parse_record b s = Inr r"
    and "\<forall>s' \<in> set after. \<forall>r'. parse_record b s' = Inr r' \<longrightarrow> gameid r' \<noteq> gameid r"
  shows "m (gameid r) = Some r"
proof -
  have "products_loop b Map.empty (before @ s # after) = Inr m"
    using assms(1,2) by (simp add: products_scan_def)
  then obtain m1 where m1: "products_loop b Map.empty before = Inr m1"
      "products_loop b m1 (s # after) = Inr m"
    by (auto simp: products_loop_append split: sum.splits)
  then have "products_loop b (m1(gameid r \<mapsto> r)) after = Inr m"
    using assms(3) by simp
  then have "m (gameid r) = (m1(gameid r \<mapsto> r)) (gameid r)"
    using products_loop_keeps assms(4) by blast
  then show ?thesis by simp
qed

lemma read_config_file:
  assumes "fs w p = Some (File b)" and "products_scan b = Inr m"
  shows "fst (read_config p w) = (if m battle_net = None then Inr None else Inr (Some m))"
  using assms
  by (auto simp: read_config_def os_path_exists_def products_parse_open_rb split: option.splits)

text \<open>
  Claim C8. For a database file that parses to a mapping \<open>m\<close>: \<open>read_config\<close> returns
  \<open>None\<close> when \<open>m\<close> has no key \<open>battle.net\<close>, and \<open>m\<close> itself otherwise. Of several
  matches with the same gameid the last one is the entry of \<open>m\<close>.
\<close>

theorem read_config_root_anchor:
  assumes "fs w p = Some (File b)" and "products_scan b = Inr m"
  shows "(m battle_net = None \<longrightarrow> fst (read_config p w) = Inr None)
       \<and> (m battle_net \<noteq> None \<longrightarrow> fst (read_config p w) = Inr (Some m))
       \<and> (\<forall>before s after r.
            finditer b = before @ s # after \<and> parse_record b s = Inr r
            \<and> (\<forall>s' \<in> set after. \<forall>r'. parse_record b s' = Inr r' \<longrightarrow> gameid r' \<noteq> gameid r)
            \<longrightarrow> m (gameid r) = Some r)"
  using read_config_file[OF assms] products_scan_last_wins[OF assms(2)]
  by (auto split: if_splits)

lemma duplicate_db_finditer: "finditer duplicate_db = [0, 20]"
  by (simp add: duplicate_db_def finditer_def)

lemma duplicate_db_first:
  "parse_record duplicate_db 0
     = Inr \<lparr>gameid = str_of ''bna'', path = str_of ''C:/B'', code = str_of ''BN''\<rparr>"
  by (simp add: duplicate_db_def parse_record_def getitem_def slice_def decode_def ebind_def
      str_of_def)

lemma duplicate_db_second:
  "parse_record duplicate_db 20
     = Inr \<lparr>gameid = str_of ''bna'', path = str_of ''D:/B'', code = str_of ''BN''\<rparr>"
  by (simp add: duplicate_db_def parse_record_def getitem_def slice_def decode_def ebind_def
      str_of_def)

lemma duplicate_db_scan:
  "products_scan duplicate_db
     = Inr [str_of ''bna'' \<mapsto>
              \<lparr>gameid = str_of ''bna'', path = str_of ''D:/B'', code = str_of ''BN''\<rparr>]"
  by (simp add: products_scan_def duplicate_db_finditer duplicate_db_first duplicate_db_second)

theorem read_config_root_anchor_witness:
  "fs duplicate_world (str_of ''/p/product.db'') = Some (File duplicate_db)
   \<and> entry_of (products_scan duplicate_db) battle_net = None
   \<and> fst (read_config (str_of ''/p/product.db'') duplicate_world) = Inr None
   \<and> finditer duplicate_db = [0] @ 20 # []
   \<and> entry_of (products_scan duplicate_db) (str_of ''bna'')
       = Some \<lparr>gameid = str_of ''bna'', path = str_of ''D:/B'', code = str_of ''BN''\<rparr>"
proof -
  let ?m = "[str_of ''bna'' \<mapsto>
              \<lparr>gameid = str_of ''bna'', path = str_of ''D:/B'', code = str_of ''BN''\<rparr>]"
  have f: "fs duplicate_world (str_of ''/p/product.db'') = Some (File duplicate_db)"
    by (simp add: duplicate_world_def)
  have nb: "?m battle_net = None"
    by (simp add: battle_net_def str_of_def)
  have fi: "finditer duplicate_db = [0] @ 20 # []"
    by (simp add: duplicate_db_finditer)
  note t = read_config_root_anchor[OF f duplicate_db_scan]
  have "fst (read_config (str_of ''/p/product.db'') duplicate_world) = Inr None"
    using t nb by blast
  moreover have "?m (gameid \<lparr>gameid = str_of ''bna'', path = str_of ''D:/B'', code = str_of ''BN''\<rparr>)
      = Some \<lparr>gameid = str_of ''bna'', path = str_of ''D:/B'', code = str_of ''BN''\<rparr>"
    using t fi duplicate_db_second by (metis empty_iff list.set(1))
  ultimately show ?thesis
    using f nb fi by (simp add: duplicate_db_scan entry_of_def)
qed

section \<open>Properties of the runner\<close>

subsection \<open>The default prefix\<close>

lemma join2_plain:
  "b \<noteq> [] \<Longrightarrow> hd b \<noteq> slash \<Longrightarrow>
   join2 a b = (if a = [] \<or> last a = slash then a @ b else a @ slash # b)"
  by (simp add: join2_def)

lemma prefix_paths_differ: "prefix64 r \<noteq> prefix32 r"
proof -
  let ?x = "join2 (RUNNER_DIR r) (str_of ''winebattlenet'')"
  have p32: "join2 ?x (str_of ''prefix'')
      = (if ?x = [] \<or> last ?x = slash then ?x @ str_of ''prefix'' else ?x @ slash # str_of ''prefix'')"
    by (rule join2_plain) (simp_all add: str_of_def slash_def)
  have p64: "join2 ?x (str_of ''prefix64'')
      = (if ?x = [] \<or> last ?x = slash then ?x @ str_of ''prefix64'' else ?x @ slash # str_of ''prefix64'')"
    by (rule join2_plain) (simp_all add: str_of_def slash_def)
  have "length (prefix64 r) \<noteq> length (prefix32 r)"
    by (simp add: prefix32_def prefix64_def os_path_join_def p32 p64) (simp add: str_of_def)
  then show ?thesis by metis
qed

lemma get_default_prefix_eq:
  "get_default_prefix r arch = (if arch = PStr (str_of ''win64'') then prefix64 r else prefix32 r)"
proof (cases "arch = PStr (str_of ''win64'')")
  case True
  have "truthy (PStr (str_of ''win64''))" by (simp add: str_of_def)
  moreover have "str_of ''prefix'' @ str_of ''64'' = str_of ''prefix64''" by (simp add: str_of_def)
  ultimately show ?thesis using True by (simp add: get_default_prefix_def prefix64_def)
next
  case False
  have "default_arch \<noteq> str_of ''win64''" by (simp add: default_arch_def str_of_def)
  then show ?thesis using False by (auto simp: get_default_prefix_def prefix32_def Let_def)
qed

lemma get_default_prefix_defaulted:
  "get_default_prefix r (if \<not> truthy arch then PStr default_arch else arch)
     = get_default_prefix r arch"
proof -
  have "default_arch \<noteq> str_of ''win64''" by (simp add: default_arch_def str_of_def)
  moreover have "truthy (PStr (str_of ''win64''))" by (simp add: str_of_def)
  ultimately show ?thesis by (auto simp: get_default_prefix_eq)
qed

lemma get_or_create_existing:
  "os_path_exists (fs w) (get_default_prefix r arch) \<Longrightarrow>
   get_or_create_default_prefix x r arch w = (Inr (get_default_prefix r arch), w)"
  by (simp add: get_or_create_default_prefix_def Let_def get_default_prefix_defaulted)

lemma get_or_create_path:
  assumes "get_or_create_default_prefix x r arch w = (Inr p, w')"
  shows "p = get_default_prefix r arch"
proof -
  define a where "a = (if \<not> truthy arch then PStr default_arch else arch)"
  have "get_or_create_default_prefix x r arch w =
          (if \<not> os_path_exists (fs w) (get_default_prefix r a)
           then (case create_prefix x r (get_default_prefix r a) a w of
                   (Inl e, w) \<Rightarrow> (Inl e, w)
                 | (Inr u, w) \<Rightarrow> (Inr (get_default_prefix r a), w))
           else (Inr (get_default_prefix r a), w))"
    by (simp only: get_or_create_default_prefix_def Let_def a_def)
  then have "p = get_default_prefix r a"
    using assms by (auto split: if_splits prod.splits sum.splits)
  then show ?thesis by (simp add: a_def get_default_prefix_defaulted)
qed

lemma prefix32_sample: "prefix32 sample_runner = str_of ''/r/winebattlenet/prefix''"
  by (simp add: prefix32_def sample_runner_def os_path_join_def join2_def str_of_def slash_def)

lemma prefix64_sample: "prefix64 sample_runner = str_of ''/r/winebattlenet/prefix64''"
  by (simp add: prefix64_def sample_runner_def os_path_join_def join2_def str_of_def slash_def)

text \<open>
  Claim C10. \<open>get_default_prefix\<close> depends on its argument alone: it returns the 64-bit
  path for \<open>'win64'\<close> and one and the same, different, 32-bit path for every other
  argument, among them \<open>None\<close>, \<open>'win32'\<close> and \<open>'auto'\<close>; so a prefix created for the
  configured architecture \<open>'auto'\<close> is the 32-bit one.
\<close>

theorem get_default_prefix_arch:
  "get_default_prefix r arch = (if arch = PStr (str_of ''win64'') then prefix64 r else prefix32 r)
   \<and> prefix64 r \<noteq> prefix32 r
   \<and> get_default_prefix r PNone = prefix32 r
   \<and> get_default_prefix r (PStr (str_of ''win32'')) = prefix32 r
   \<and> get_default_prefix r (PStr (str_of ''auto'')) = prefix32 r
   \<and> (get_or_create_default_prefix x r (PStr (str_of ''auto'')) w = (Inr p, w') \<longrightarrow> p = prefix32 r)"
proof -
  have "str_of ''win32'' \<noteq> str_of ''win64''" "str_of ''auto'' \<noteq> str_of ''win64''"
    by (simp_all add: str_of_def)
  then show ?thesis
    using get_or_create_path[of x r "PStr (str_of ''auto'')" w p w'] prefix_paths_differ[of r]
    by (simp add: get_default_prefix_eq)
qed

theorem get_default_prefix_arch_witness:
  "get_default_prefix sample_runner (PStr (str_of ''win64'')) = str_of ''/r/winebattlenet/prefix64''
   \<and> get_default_prefix sample_runner (PStr (str_of ''auto'')) = str_of ''/r/winebattlenet/prefix''
   \<and> get_default_prefix sample_runner (PStr (str_of ''win32'')) = str_of ''/r/winebattlenet/prefix''
   \<and> get_default_prefix sample_runner PNone = str_of ''/r/winebattlenet/prefix''
   \<and> get_or_create_default_prefix sample_ext sample_runner (PStr (str_of ''auto'')) sample_world
        = (Inr (str_of ''/r/winebattlenet/prefix''), sample_world)"
proof -
  note t = get_default_prefix_arch[of sample_runner "PStr (str_of ''win64'')" sample_ext
      sample_world "str_of ''/r/winebattlenet/prefix''" sample_world]
  have e: "os_path_exists (fs sample_world)
             (get_default_prefix sample_runner (PStr (str_of ''auto'')))"
    using t by (simp add: prefix32_sample) (simp add: os_path_exists_def sample_world_def str_of_def)
  show ?thesis
    using t get_or_create_existing[OF e, of sample_ext]
    by (simp add: prefix32_sample prefix64_sample)
qed

text \<open>
  Claim C6. When the prefix path exists, \<open>get_or_create_default_prefix\<close> returns it and
  leaves the world as it was: the file system and the journal are unchanged, so no
  directory was made and no Wine tool was run. Two calls in a row with the same
  architecture return the same path, and the second changes nothing once the path exists.
\<close>

theorem get_or_create_default_prefix_idempotent:
  "(os_path_exists (fs w) (get_default_prefix r arch) \<longrightarrow>
      get_or_create_default_prefix x r arch w = (Inr (get_default_prefix r arch), w))
   \<and> (get_or_create_default_prefix x r arch w = (Inr p1, w1)
        \<and> get_or_create_default_prefix x r arch w1 = (Inr p2, w2) \<longrightarrow> p1 = p2)
   \<and> (get_or_create_default_prefix x r arch w = (Inr p1, w1) \<and> os_path_exists (fs w1) p1 \<longrightarrow>
        get_or_create_default_prefix x r arch w1 = (Inr p1, w1))"
proof (intro conjI impI)
  assume "os_path_exists (fs w) (get_default_prefix r arch)"
  then show "get_or_create_default_prefix x r arch w = (Inr (get_default_prefix r arch), w)"
    by (rule get_or_create_existing)
next
  assume "get_or_create_default_prefix x r arch w = (Inr p1, w1)
          \<and> get_or_create_default_prefix x r arch w1 = (Inr p2, w2)"
  then have "p1 = get_default_prefix r arch" "p2 = get_default_prefix r arch"
    using get_or_create_path by blast+
  then show "p1 = p2" by simp
next
  assume a: "get_or_create_default_prefix x r arch w = (Inr p1, w1) \<and> os_path_exists (fs w1) p1"
  then have "p1 = get_default_prefix r arch"
    using get_or_create_path by blast
  then show "get_or_create_default_prefix x r arch w1 = (Inr p1, w1)"
    using a get_or_create_existing by blast
qed

lemma empty_world_first:
  "get_or_create_default_prefix sample_ext sample_runner (PStr (str_of ''win32'')) empty_world
     = (Inr (str_of ''/r/winebattlenet/prefix''),
        \<lparr>fs = [str_of ''/r/winebattlenet'' \<mapsto> Dir, str_of ''/r/winebattlenet/prefix'' \<mapsto> Dir],
         journal = [Log ''debug'', MakeDirs (str_of ''/r/winebattlenet''),
                    WineCreatePrefix (str_of ''/r/winebattlenet/prefix'') (PStr (str_of ''win32''))
                      (str_of ''/usr/bin/wine'')]\<rparr>)"
proof -
  have p: "get_default_prefix sample_runner (PStr (str_of ''win32'')) = str_of ''/r/winebattlenet/prefix''"
    using get_default_prefix_eq[of sample_runner "PStr (str_of ''win32'')"]
    by (simp add: prefix32_sample) (simp add: str_of_def)
  have t: "str_of ''win32'' \<noteq> []" by (simp add: str_of_def)
  have d: "os_path_dirname (str_of ''/r/winebattlenet/prefix'') = str_of ''/r/winebattlenet''"
    by (simp add: os_path_dirname_def str_of_def slash_def)
  show ?thesis
    unfolding get_or_create_default_prefix_def Let_def
    by (simp add: t p create_prefix_def Let_def d empty_world_def os_path_exists_def logger_def
          fs_effect_def sample_ext_def)
qed

theorem get_or_create_default_prefix_idempotent_witness:
  "os_path_exists (fs sample_world) (get_default_prefix sample_runner (PStr (str_of ''win32'')))
   \<and> get_or_create_default_prefix sample_ext sample_runner (PStr (str_of ''win32'')) sample_world
        = (Inr (str_of ''/r/winebattlenet/prefix''), sample_world)
   \<and> fst (get_or_create_default_prefix sample_ext sample_runner (PStr (str_of ''win32''))
          (snd (get_or_create_default_prefix sample_ext sample_runner (PStr (str_of ''win32''))
                 empty_world)))
        = Inr (str_of ''/r/winebattlenet/prefix'')
   \<and> snd (get_or_create_default_prefix sample_ext sample_runner (PStr (str_of ''win32''))
          (snd (get_or_create_default_prefix sample_ext sample_runner (PStr (str_of ''win32''))
                 empty_world)))
        = snd (get_or_create_default_prefix sample_ext sample_runner (PStr (str_of ''win32''))
                 empty_world)"
proof -
  let ?a = "PStr (str_of ''win32'')"
  let ?w1 = "\<lparr>fs = [str_of ''/r/winebattlenet'' \<mapsto> Dir, str_of ''/r/winebattlenet/prefix'' \<mapsto> Dir],
         journal = [Log ''debug'', MakeDirs (str_of ''/r/winebattlenet''),
                    WineCreatePrefix (str_of ''/r/winebattlenet/prefix'') (PStr (str_of ''win32''))
                      (str_of ''/usr/bin/wine'')]\<rparr>"
  have p: "get_default_prefix sample_runner ?a = str_of ''/r/winebattlenet/prefix''"
    using get_default_prefix_eq[of sample_runner ?a]
    by (simp add: prefix32_sample) (simp add: str_of_def)
  have e: "os_path_exists (fs sample_world) (get_default_prefix sample_runner ?a)"
    unfolding p by (simp add: os_path_exists_def sample_world_def str_of_def)
  have e1: "os_path_exists (fs ?w1) (str_of ''/r/winebattlenet/prefix'')"
    by (simp add: os_path_exists_def)
  note t0 = get_or_create_default_prefix_idempotent[of sample_world sample_runner ?a sample_ext]
  note t1 = get_or_create_default_prefix_idempotent[of empty_world sample_runner ?a sample_ext
      "str_of ''/r/winebattlenet/prefix''" ?w1]
  have s0: "get_or_create_default_prefix sample_ext sample_runner ?a sample_world
        = (Inr (str_of ''/r/winebattlenet/prefix''), sample_world)"
    using t0[THEN conjunct1, THEN mp, OF e] by (simp only: p)
  have s1: "get_or_create_default_prefix sample_ext sample_runner ?a ?w1
        = (Inr (str_of ''/r/winebattlenet/prefix''), ?w1)"
    by (rule t1[THEN conjunct2, THEN conjunct2, THEN mp, OF conjI[OF empty_world_first e1]])
  show ?thesis
    unfolding empty_world_first snd_conv s1 s0 fst_conv using e by simp
qed

subsection \<open>Reading the installed games\<close>

lemma read_config_fs: "fs (snd (read_config p w)) = fs w"
  by (simp add: read_config_def logger_def split: option.splits node.splits sum.splits)

lemma read_config_cong: "fs w' = fs w \<Longrightarrow> fst (read_config p w') = fst (read_config p w)"
  by (simp add: read_config_def split: option.splits node.splits sum.splits)

lemma get_bnet_games_fs: "fs (snd (get_bnet_games r w)) = fs w"
  by (simp add: get_bnet_games_def Let_def read_config_fs)

lemma get_bnet_games_cong:
  "fs w' = fs w \<Longrightarrow> fst (get_bnet_games r w') = fst (get_bnet_games r w)"
  using read_config_cong[of w' w] by (simp add: get_bnet_games_def Let_def)

lemma products_parse_unread:
  "fst (products_parse f) = fst (products_parse (open_rb (drop (pos f) (content f))))"
  by (simp add: products_parse_def file_read_def open_rb_def)

text \<open>
  Claim C7. What \<open>products_parse\<close> returns is determined by the bytes it reads: it is the
  result for a fresh file object holding just these bytes. \<open>get_bnet_games\<close> leaves the
  file system as it was, and a second call right after the first returns the same result.
\<close>

theorem get_bnet_games_deterministic:
  "fst (products_parse f) = fst (products_parse (open_rb (drop (pos f) (content f))))
   \<and> fs (snd (get_bnet_games r w)) = fs w
   \<and> fst (get_bnet_games r (snd (get_bnet_games r w))) = fst (get_bnet_games r w)"
  using products_parse_unread[of f] get_bnet_games_fs[of r w]
    get_bnet_games_cong[OF get_bnet_games_fs[of r w], of r]
  by simp

lemma product_db_sample:
  "os_path_join (get_default_prefix sample_runner PNone)
       [str_of ''drive_c/ProgramData/Battle.net/Agent/product.db'']
     = str_of ''/r/winebattlenet/prefix/drive_c/ProgramData/Battle.net/Agent/product.db''"
  by (simp add: get_default_prefix_eq prefix32_sample)
     (simp add: os_path_join_def join2_def str_of_def slash_def)

lemma bnet_db_finditer: "finditer bnet_db = [0, 27]"
  by (simp add: bnet_db_def finditer_def)

lemma bnet_db_first:
  "parse_record bnet_db 0
     = Inr \<lparr>gameid = str_of ''battle.net'', path = str_of ''C:/B'', code = str_of ''BN''\<rparr>"
  by (simp add: bnet_db_def parse_record_def getitem_def slice_def decode_def ebind_def
      str_of_def)

lemma bnet_db_second:
  "parse_record bnet_db 27
     = Inr \<lparr>gameid = str_of ''prometheus'', path = str_of ''C:/O'', code = str_of ''Pro''\<rparr>"
  by (simp add: bnet_db_def parse_record_def getitem_def slice_def decode_def ebind_def
      str_of_def)

lemma bnet_db_scan:
  "products_scan bnet_db
     = Inr [str_of ''battle.net'' \<mapsto>
              \<lparr>gameid = str_of ''battle.net'', path = str_of ''C:/B'', code = str_of ''BN''\<rparr>,
            str_of ''prometheus'' \<mapsto>
              \<lparr>gameid = str_of ''prometheus'', path = str_of ''C:/O'', code = str_of ''Pro''\<rparr>]"
  by (simp add: products_scan_def bnet_db_finditer bnet_db_first bnet_db_second)

lemma sample_games:
  "get_bnet_games sample_runner sample_world
     = (Inr (Some [str_of ''battle.net'' \<mapsto>
              \<lparr>gameid = str_of ''battle.net'', path = str_of ''C:/B'', code = str_of ''BN''\<rparr>,
            str_of ''prometheus'' \<mapsto>
              \<lparr>gameid = str_of ''prometheus'', path = str_of ''C:/O'', code = str_of ''Pro''\<rparr>]),
        sample_world)"
proof -
  have f: "fs sample_world
             (str_of ''/r/winebattlenet/prefix/drive_c/ProgramData/Battle.net/Agent/product.db'')
           = Some (File bnet_db)"
    by (simp add: sample_world_def str_of_def)
  have k: "str_of ''prometheus'' \<noteq> battle_net" by (simp add: battle_net_def str_of_def)
  show ?thesis
    unfolding get_bnet_games_def Let_def product_db_sample
    using k by (simp add: read_config_def os_path_exists_def f products_parse_open_rb bnet_db_scan
        battle_net_def)
qed

theorem get_bnet_games_deterministic_witness:
  "games_entry (fst (get_bnet_games sample_runner sample_world)) (str_of ''prometheus'')
     = Some \<lparr>gameid = str_of ''prometheus'', path = str_of ''C:/O'', code = str_of ''Pro''\<rparr>
   \<and> fst (get_bnet_games sample_runner (snd (get_bnet_games sample_runner sample_world)))
       = fst (get_bnet_games sample_runner sample_world)
   \<and> fs (snd (get_bnet_games sample_runner sample_world)) = fs sample_world"
  using get_bnet_games_deterministic[of "open_rb bnet_db" sample_runner sample_world]
  by (simp add: sample_games games_entry_def)

subsection \<open>Starting a game without the launcher\<close>

text \<open>
  Claim C5. With \<open>run_without_bnet\<close> set to \<open>True\<close>, once the game directory has been
  resolved and is not a directory on disk, \<open>play\<close> returns the dictionary
  \<open>{'error': 'DIR_NOT_FOUND', 'file': game_dir}\<close> as its value; it does not raise.
\<close>

theorem play_missing_directory:
  assumes "runner_config r ''run_without_bnet'' = Some (PBool True)"
    and "play_x360ce x r w = (Inr (), w1)"
    and "resolve_game_dir x r w1 = (Inr game_dir, w2)"
    and "\<not> os_path_isdir (fs w2) game_dir"
  shows "play x r w = (Inr (ErrorInfo (str_of ''DIR_NOT_FOUND'') game_dir), w2)"
  using assms by (simp add: play_def Let_def dict_index_def)

theorem play_missing_directory_witness:
  "runner_config sample_runner ''run_without_bnet'' = Some (PBool True)
   \<and> play_x360ce sample_ext sample_runner sample_world = (Inr (), sample_world)
   \<and> resolve_game_dir sample_ext sample_runner sample_world
        = (Inr (str_of ''/games/Overwatch''), sample_world)
   \<and> \<not> os_path_isdir (fs sample_world) (str_of ''/games/Overwatch'')
   \<and> play sample_ext sample_runner sample_world
        = (Inr (ErrorInfo (str_of ''DIR_NOT_FOUND'') (str_of ''/games/Overwatch'')), sample_world)"
proof -
  have a: "runner_config sample_runner ''run_without_bnet'' = Some (PBool True)"
    by (simp add: sample_runner_def)
  have b: "play_x360ce sample_ext sample_runner sample_world = (Inr (), sample_world)"
    by (simp add: play_x360ce_def sample_runner_def dict_get_def)
  have g: "runner_gameid sample_runner = PStr (str_of ''prometheus'')"
    by (simp add: runner_gameid_def sample_runner_def dict_get_def py_or_def str_of_def)
  have e: "os_path_exists (fs sample_world) (get_default_prefix sample_runner PNone)"
    by (simp add: get_default_prefix_eq prefix32_sample)
       (simp add: os_path_exists_def sample_world_def str_of_def)
  have pp: "prefix_path sample_ext sample_runner sample_world
              = (Inr (str_of ''/r/winebattlenet/prefix''), sample_world)"
    using get_or_create_existing[OF e, of sample_ext]
    by (simp add: prefix_path_def Let_def get_default_prefix_eq prefix32_sample)
       (simp add: sample_runner_def dict_get_def sample_ext_def)
  have k: "str_of ''prometheus'' \<noteq> str_of ''battle.net''" by (simp add: str_of_def)
  have c: "resolve_game_dir sample_ext sample_runner sample_world
        = (Inr (str_of ''/games/Overwatch''), sample_world)"
    using k by (simp add: resolve_game_dir_def sample_games g pp) (simp add: sample_ext_def)
  have d: "\<not> os_path_isdir (fs sample_world) (str_of ''/games/Overwatch'')"
    by (simp add: os_path_isdir_def sample_world_def str_of_def)
  show ?thesis using play_missing_directory[OF a b c d] a b c d by simp
qed

subsection \<open>Stopping the launcher\<close>

lemma polls_append: "polls (xs @ ys) = polls xs + polls ys"
  by (simp add: polls_def)

lemma polls_replicate_sleep: "polls (replicate n (Sleep k)) = n"
  by (induction n) (simp_all add: polls_def)

lemma polls_kill: "polls (kill p h) = polls h"
  by (simp add: kill_def Let_def polls_def)

lemma polls_shutdown: "polls (shutdown h) = polls h"
  by (simp add: shutdown_def polls_def)

lemma check_shutdown_polls: "polls (snd (check_shutdown p n h)) \<le> polls h + n"
proof (induction n arbitrary: h)
  case 0
  then show ?case by simp
next
  case (Suc n)
  have "polls (snd (check_shutdown p n (h @ [Sleep 1]))) \<le> polls (h @ [Sleep 1]) + n"
    by (rule Suc.IH)
  then show ?case by (simp add: Let_def polls_def)
qed

lemma check_shutdown_alive:
  "\<forall>h'. is_running p h' \<Longrightarrow> check_shutdown p n h = (PNone, h @ replicate n (Sleep 1))"
proof (induction n arbitrary: h)
  case 0
  then show ?case by simp
next
  case (Suc n)
  have "check_shutdown p (Suc n) h = check_shutdown p n (h @ [Sleep 1])"
    using Suc.prems by (simp add: Let_def)
  also have "\<dots> = (PNone, (h @ [Sleep 1]) @ replicate n (Sleep 1))"
    using Suc.IH[OF Suc.prems] .
  finally show ?case by (simp add: replicate_app_Cons_same)
qed

lemma prelaunch_polls: "polls (snd (prelaunch p h)) \<le> polls h + 15"
proof -
  let ?h1 = "shutdown (h @ [SuperPrelaunch, Log ''info''])"
  obtain r1 h2 where c1: "check_shutdown p 10 ?h1 = (r1, h2)" by (cases "check_shutdown p 10 ?h1")
  let ?h3 = "kill p (h2 @ [Log ''info''])"
  obtain r2 h4 where c2: "check_shutdown p 5 ?h3 = (r2, h4)" by (cases "check_shutdown p 5 ?h3")
  have a: "polls h2 \<le> polls h + 10"
    using check_shutdown_polls[of p 10 ?h1] c1 by (simp add: polls_shutdown) (simp add: polls_def)
  have b: "polls h4 \<le> polls h2 + 5"
    using check_shutdown_polls[of p 5 ?h3] c2 by (simp add: polls_kill) (simp add: polls_def)
  have h0: "polls (h @ [SuperPrelaunch]) = polls h" by (simp add: polls_def)
  have e: "polls (h4 @ [Log ''error'']) = polls h4" by (simp add: polls_def)
  show ?thesis
    using a b h0 e by (simp add: prelaunch_def Let_def c1 c2)
qed

lemma prelaunch_never_dies:
  assumes "\<forall>h'. is_running p h'"
  shows "prelaunch p h =
           (False, kill p (shutdown (h @ [SuperPrelaunch, Log ''info'']) @ replicate 10 (Sleep 1)
                           @ [Log ''info''])
                   @ replicate 5 (Sleep 1) @ [Log ''error''])"
  using assms by (simp add: prelaunch_def Let_def check_shutdown_alive)

lemma prelaunch_not_running:
  "\<not> is_running p (h @ [SuperPrelaunch]) \<Longrightarrow> prelaunch p h = (True, h @ [SuperPrelaunch])"
  by (simp add: prelaunch_def Let_def)

lemma alive_through_iff:
  "alive_through p h n \<longleftrightarrow> (\<forall>k. 1 \<le> k \<and> k \<le> n \<longrightarrow> is_running p (h @ replicate k (Sleep 1)))"
  by (auto simp: alive_through_def list_all_iff)

lemma alive_through_0: "alive_through p h 0"
  by (simp add: alive_through_iff)

lemma alive_through_Suc:
  "alive_through p h (Suc n) \<longleftrightarrow>
     alive_through p h n \<and> is_running p (h @ replicate (Suc n) (Sleep 1))"
  unfolding alive_through_iff using le_Suc_eq by auto

lemma alive_through_step:
  "alive_through p h (Suc n) \<longleftrightarrow>
     is_running p (h @ [Sleep 1]) \<and> alive_through p (h @ [Sleep 1]) n"
proof
  assume a: "alive_through p h (Suc n)"
  have "is_running p (h @ [Sleep 1])"
    using a[unfolded alive_through_iff, rule_format, of 1] by simp
  moreover have "is_running p ((h @ [Sleep 1]) @ replicate k (Sleep 1))" if "1 \<le> k" "k \<le> n" for k
    using a[unfolded alive_through_iff, rule_format, of "Suc k"] that by simp
  ultimately show "is_running p (h @ [Sleep 1]) \<and> alive_through p (h @ [Sleep 1]) n"
    unfolding alive_through_iff by blast
next
  assume a: "is_running p (h @ [Sleep 1]) \<and> alive_through p (h @ [Sleep 1]) n"
  show "alive_through p h (Suc n)"
    unfolding alive_through_iff
  proof (intro allI impI)
    fix k assume k: "1 \<le> k \<and> k \<le> Suc n"
    show "is_running p (h @ replicate k (Sleep 1))"
    proof (cases "k = 1")
      case True
      then show ?thesis using a by simp
    next
      case False
      then obtain j where j: "k = Suc j" "1 \<le> j" "j \<le> n"
        using k by (cases k) auto
      have "is_running p ((h @ [Sleep 1]) @ replicate j (Sleep 1))"
        using a j(2,3) unfolding alive_through_iff by blast
      then show ?thesis using j(1) by simp
    qed
  qed
qed

lemma check_shutdown_exhausted:
  "alive_through p h n \<Longrightarrow> check_shutdown p n h = (PNone, h @ replicate n (Sleep 1))"
proof (induction n arbitrary: h)
  case 0
  then show ?case by simp
next
  case (Suc n)
  then have r: "is_running p (h @ [Sleep 1])" and a: "alive_through p (h @ [Sleep 1]) n"
    by (simp_all add: alive_through_step)
  have "check_shutdown p (Suc n) h = check_shutdown p n (h @ [Sleep 1])"
    using r by (simp add: Let_def)
  also have "\<dots> = (PNone, (h @ [Sleep 1]) @ replicate n (Sleep 1))"
    by (rule Suc.IH[OF a])
  finally show ?case by simp
qed

lemma check_shutdown_exits:
  "exits_at p h k \<Longrightarrow> k \<le> n \<Longrightarrow> check_shutdown p n h = (PBool True, h @ replicate k (Sleep 1))"
proof (induction n arbitrary: h k)
  case 0
  then show ?case by (simp add: exits_at_def)
next
  case (Suc n)
  show ?case
  proof (cases "k = 1")
    case True
    then have "\<not> is_running p (h @ [Sleep 1])"
      using Suc.prems(1) by (simp add: exits_at_def)
    then show ?thesis using True by (simp add: Let_def)
  next
    case False
    then obtain j where j: "k = Suc j" "0 < j"
      using Suc.prems(1) by (cases k) (auto simp: exits_at_def)
    have al: "alive_through p h (Suc (j - 1))"
      using Suc.prems(1) j by (simp add: exits_at_def)
    then have r: "is_running p (h @ [Sleep 1])" and a: "alive_through p (h @ [Sleep 1]) (j - 1)"
      by (simp_all add: alive_through_step)
    have "\<not> is_running p ((h @ [Sleep 1]) @ replicate j (Sleep 1))"
      using Suc.prems(1) j by (simp add: exits_at_def)
    then have e: "exits_at p (h @ [Sleep 1]) j"
      using a j(2) by (simp add: exits_at_def)
    have "check_shutdown p (Suc n) h = check_shutdown p n (h @ [Sleep 1])"
      using r by (simp add: Let_def)
    also have "\<dots> = (PBool True, (h @ [Sleep 1]) @ replicate j (Sleep 1))"
      using Suc.IH[OF e] Suc.prems(2) j(1) by simp
    finally show ?thesis using j(1) by simp
  qed
qed

lemma alive_or_exits:
  "alive_through p h n \<or> (\<exists>k. 0 < k \<and> k \<le> n \<and> exits_at p h k)"
proof (induction n)
  case 0
  then show ?case by (simp add: alive_through_0)
next
  case (Suc n)
  then show ?case
  proof
    assume a: "alive_through p h n"
    show ?thesis
    proof (cases "is_running p (h @ replicate (Suc n) (Sleep 1))")
      case True
      then show ?thesis using a alive_through_Suc by blast
    next
      case False
      then have "exits_at p h (Suc n)" using a by (simp add: exits_at_def)
      then show ?thesis by blast
    qed
  next
    assume "\<exists>k. 0 < k \<and> k \<le> n \<and> exits_at p h k"
    then show ?thesis using le_Suc_eq by blast
  qed
qed

lemma prelaunch_first_tier:
  assumes "is_running p (h @ [SuperPrelaunch])" "exits_at p (after_stop h) k" "k \<le> 10"
  shows "prelaunch p h = (True, after_stop h @ replicate k (Sleep 1))"
  using assms(1) check_shutdown_exits[OF assms(2,3)]
  by (simp add: prelaunch_def Let_def after_stop_def)

lemma prelaunch_second_tier:
  assumes "is_running p (h @ [SuperPrelaunch])" "alive_through p (after_stop h) 10"
    "exits_at p (after_kill p h) k" "k \<le> 5"
  shows "prelaunch p h = (True, after_kill p h @ replicate k (Sleep 1))"
  using assms(1) check_shutdown_exhausted[OF assms(2)] check_shutdown_exits[OF assms(3,4)]
  by (simp add: prelaunch_def Let_def after_stop_def after_kill_def)

lemma prelaunch_timeout:
  assumes "is_running p (h @ [SuperPrelaunch])" "alive_through p (after_stop h) 10"
    "alive_through p (after_kill p h) 5"
  shows "prelaunch p h = (False, after_kill p h @ replicate 5 (Sleep 1) @ [Log ''error''])"
  using assms(1) check_shutdown_exhausted[OF assms(2)] check_shutdown_exhausted[OF assms(3)]
  by (simp add: prelaunch_def Let_def after_stop_def after_kill_def)

text \<open>
  Claim C4, as amended. \<open>prelaunch\<close> sleeps at most 15 times, whatever the launcher does.
  If the launcher is not running at the start, nothing is sent and the result is \<open>True\<close>.
  If it is running, a graceful stop is sent and the launcher is polled after each of up to
  10 sleeps of one second: at the first poll that finds it gone the result is \<open>True\<close>.
  If all 10 polls find it running, it is killed and polled up to 5 more times (the second
  tier is the shorter one), again with \<open>True\<close> at the first poll that finds it gone. If
  these 5 polls find it running too, the failure is logged and the result is \<open>False\<close>.
  In each tier one of the two cases holds, so every launcher is covered.
\<close>

theorem prelaunch_escalation:
  "polls (snd (prelaunch p h)) \<le> polls h + 15
   \<and> (\<not> is_running p (h @ [SuperPrelaunch]) \<longrightarrow> prelaunch p h = (True, h @ [SuperPrelaunch]))
   \<and> (is_running p (h @ [SuperPrelaunch]) \<and> exits_at p (after_stop h) k \<and> k \<le> 10 \<longrightarrow>
        prelaunch p h = (True, after_stop h @ replicate k (Sleep 1)))
   \<and> (is_running p (h @ [SuperPrelaunch]) \<and> alive_through p (after_stop h) 10
        \<and> exits_at p (after_kill p h) k \<and> k \<le> 5 \<longrightarrow>
        prelaunch p h = (True, after_kill p h @ replicate k (Sleep 1)))
   \<and> (is_running p (h @ [SuperPrelaunch]) \<and> alive_through p (after_stop h) 10
        \<and> alive_through p (after_kill p h) 5 \<longrightarrow>
        prelaunch p h = (False, after_kill p h @ replicate 5 (Sleep 1) @ [Log ''error'']))
   \<and> (alive_through p (after_stop h) 10 \<or> (\<exists>j. 0 < j \<and> j \<le> 10 \<and> exits_at p (after_stop h) j))
   \<and> (alive_through p (after_kill p h) 5 \<or> (\<exists>j. 0 < j \<and> j \<le> 5 \<and> exits_at p (after_kill p h) j))"
  using prelaunch_polls[of p h] prelaunch_not_running[of p h] prelaunch_first_tier[of p h k]
    prelaunch_second_tier[of p h k] prelaunch_timeout[of p h]
    alive_or_exits[of p "after_stop h" 10] alive_or_exits[of p "after_kill p h" 5]
  by (intro conjI impI) blast+

lemma immortal_running: "is_running immortal h"
  by (simp add: is_running_def immortal_def str_of_def)

lemma immortal_journal:
  "snd (prelaunch immortal [])
     = [SuperPrelaunch, Log ''info'', Log ''debug'', SuperStop]
       @ replicate 10 (Sleep 1)
       @ [Log ''info'', KillPid (PInt 4242), KillPid (PInt 4242)]
       @ replicate 5 (Sleep 1) @ [Log ''error'']"
  using prelaunch_never_dies[of immortal "[]"] immortal_running
  by (simp add: kill_def shutdown_def Let_def immortal_def)

lemma replicate_10: "replicate 10 x = [x, x, x, x, x, x, x, x, x, x]"
  by (simp add: numeral_eq_Suc)

lemma replicate_5: "replicate 5 x = [x, x, x, x, x]"
  by (simp add: numeral_eq_Suc)

text \<open>
  Claim C4 as stated has a short tier before the kill and a longer one after it. For a
  launcher that never exits there are 10 polls before the kill and 5 after it.
\<close>

theorem prelaunch_tiers_counterexample:
  "fst (prelaunch immortal []) = False
   \<and> first_tier_polls (snd (prelaunch immortal [])) = 10
   \<and> second_tier_polls (snd (prelaunch immortal [])) = 5
   \<and> \<not> first_tier_polls (snd (prelaunch immortal []))
        < second_tier_polls (snd (prelaunch immortal []))"
proof -
  have "fst (prelaunch immortal []) = False"
    using prelaunch_never_dies[of immortal "[]"] immortal_running by simp
  moreover have "first_tier_polls (snd (prelaunch immortal [])) = 10"
    unfolding immortal_journal replicate_10 replicate_5
    by (simp add: first_tier_polls_def polls_def)
  moreover have "second_tier_polls (snd (prelaunch immortal [])) = 5"
    unfolding immortal_journal replicate_10 replicate_5
    by (simp add: second_tier_polls_def polls_def)
  ultimately show ?thesis by simp
qed

lemma absent_running: "\<not> is_running absent h"
  by (simp add: is_running_def absent_def)

lemma exits_on_stop_running: "is_running exits_on_stop h \<longleftrightarrow> SuperStop \<notin> set h"
  by (simp add: is_running_def exits_on_stop_def str_of_def)

lemma exits_on_kill_running: "is_running exits_on_kill h \<longleftrightarrow> \<not> list_ex is_kill h"
  by (simp add: is_running_def exits_on_kill_def str_of_def)

theorem prelaunch_escalation_witness:
  "prelaunch absent [] = (True, [SuperPrelaunch])
   \<and> prelaunch exits_on_stop []
       = (True, [SuperPrelaunch, Log ''info'', Log ''debug'', SuperStop, Sleep 1])
   \<and> prelaunch exits_on_kill []
       = (True, [SuperPrelaunch, Log ''info'', Log ''debug'', SuperStop] @ replicate 10 (Sleep 1)
                @ [Log ''info'', KillPid (PInt 4242), KillPid PNone, Sleep 1])
   \<and> prelaunch immortal []
       = (False, [SuperPrelaunch, Log ''info'', Log ''debug'', SuperStop] @ replicate 10 (Sleep 1)
                 @ [Log ''info'', KillPid (PInt 4242), KillPid (PInt 4242)]
                 @ replicate 5 (Sleep 1) @ [Log ''error''])
   \<and> polls (snd (prelaunch immortal [])) \<le> 15"
proof -
  have s: "after_stop [] = [SuperPrelaunch, Log ''info'', Log ''debug'', SuperStop]"
    by (simp add: after_stop_def shutdown_def)
  have a: "prelaunch absent [] = (True, [SuperPrelaunch])"
    using prelaunch_escalation[of absent "[]" 1] absent_running by simp
  have b1: "is_running exits_on_stop ([] @ [SuperPrelaunch])"
    by (simp add: exits_on_stop_running)
  have b2: "exits_at exits_on_stop (after_stop []) 1"
    by (simp add: exits_at_def alive_through_0 exits_on_stop_running s)
  have b: "prelaunch exits_on_stop []
       = (True, [SuperPrelaunch, Log ''info'', Log ''debug'', SuperStop, Sleep 1])"
    using prelaunch_escalation[of exits_on_stop "[]" 1] b1 b2 by (simp add: s)
  have k: "after_kill exits_on_kill []
      = [SuperPrelaunch, Log ''info'', Log ''debug'', SuperStop] @ replicate 10 (Sleep 1)
        @ [Log ''info'', KillPid (PInt 4242), KillPid PNone]"
    by (simp add: after_kill_def s kill_def Let_def exits_on_kill_def list_ex_iff)
  have c1: "is_running exits_on_kill ([] @ [SuperPrelaunch])"
    by (simp add: exits_on_kill_running)
  have c2: "alive_through exits_on_kill (after_stop []) 10"
    by (simp add: alive_through_iff exits_on_kill_running s list_ex_iff)
  have c3: "exits_at exits_on_kill (after_kill exits_on_kill []) 1"
    by (simp add: exits_at_def alive_through_0 exits_on_kill_running k)
  have c: "prelaunch exits_on_kill []
       = (True, [SuperPrelaunch, Log ''info'', Log ''debug'', SuperStop] @ replicate 10 (Sleep 1)
                @ [Log ''info'', KillPid (PInt 4242), KillPid PNone, Sleep 1])"
    using prelaunch_escalation[of exits_on_kill "[]" 1] c1 c2 c3 by (simp add: k)
  have ki: "after_kill immortal []
      = [SuperPrelaunch, Log ''info'', Log ''debug'', SuperStop] @ replicate 10 (Sleep 1)
        @ [Log ''info'', KillPid (PInt 4242), KillPid (PInt 4242)]"
    by (simp add: after_kill_def s kill_def Let_def immortal_def)
  have d1: "is_running immortal ([] @ [SuperPrelaunch])"
    "alive_through immortal (after_stop []) 10"
    "alive_through immortal (after_kill immortal []) 5"
    by (simp_all add: alive_through_iff immortal_running)
  have d: "prelaunch immortal []
       = (False, [SuperPrelaunch, Log ''info'', Log ''debug'', SuperStop] @ replicate 10 (Sleep 1)
                 @ [Log ''info'', KillPid (PInt 4242), KillPid (PInt 4242)]
                 @ replicate 5 (Sleep 1) @ [Log ''error''])"
    using prelaunch_escalation[of immortal "[]" 1] d1 by (simp add: ki)
  have e: "polls (snd (prelaunch immortal [])) \<le> 15"
    using prelaunch_escalation[of immortal "[]" 1] by (simp add: polls_def)
  show ?thesis using a b c d e by blast
qed

subsection \<open>Whether the runner is installed\<close>

text \<open>
  Claim C9. The docstring of \<open>Runner.is_installed\<close> promises \<open>False\<close> when the runner is
  not installed. With an executable that is not on disk, or none at all, the method
  returns \<open>None\<close>.
\<close>

theorem Runner_is_installed_returns_None:
  "Runner_is_installed (Some (str_of ''/usr/bin/scummvm'')) Map.empty = PNone
   \<and> Runner_is_installed (Some (str_of ''/usr/bin/scummvm'')) Map.empty \<noteq> PBool False
   \<and> Runner_is_installed None Map.empty = PNone"
  by (simp add: Runner_is_installed_def os_path_exists_def)

end
